theory Spec2Isabelle
  imports Complex_Main "HOL-Library.Word"
begin

unbundle bit_operations_syntax

section \<open>Memory and the C string library\<close>

text \<open>
  The sketch \<^verbatim>\<open>IBIS_Sender_MQTT.ino\<close> works on fixed-size \<^verbatim>\<open>char\<close> arrays through
  the C string library. A byte is an 8-bit word. An array is the list of its cells; a cell
  of a local array that has not been written yet holds no value (\<open>None\<close>). Reading such
  a cell, or reading or writing past the end of an array, is an error value: every
  operation returns \<open>error + result\<close>, and \<open>bindE\<close> sequences them, stopping at the
  first error: from there on the C program has no defined behaviour. The \<^verbatim>\<open>int\<close>
  variables of the sketch are integers here; none of its arithmetic leaves the range of a
  16-bit \<^verbatim>\<open>int\<close>.
\<close>

type_synonym byte = "8 word"

datatype error = OutOfBounds | Uninitialised

type_synonym buffer = "byte option list"

definition bindE :: "error + 'a \<Rightarrow> ('a \<Rightarrow> error + 'b) \<Rightarrow> error + 'b" where
  "bindE m f = (case m of Inl e \<Rightarrow> Inl e | Inr x \<Rightarrow> f x)"

text \<open>A string literal of the source, as its bytes (without the terminating NUL).\<close>

definition bytes :: "string \<Rightarrow> byte list" where
  "bytes s = map of_char s"

abbreviation CR :: byte where "CR \<equiv> 0x0D"
abbreviation LF :: byte where "LF \<equiv> 0x0A"
abbreviation SP :: byte where "SP \<equiv> 0x20"

text \<open>\<^verbatim>\<open>buf[i]\<close> read and \<^verbatim>\<open>buf[i] = b\<close>.\<close>

definition peek :: "buffer \<Rightarrow> nat \<Rightarrow> error + byte" where
  "peek buf i =
     (if i < length buf
      then (case buf ! i of None \<Rightarrow> Inl Uninitialised | Some b \<Rightarrow> Inr b)
      else Inl OutOfBounds)"

definition poke :: "buffer \<Rightarrow> nat \<Rightarrow> byte \<Rightarrow> error + buffer" where
  "poke buf i b = (if i < length buf then Inr (buf[i := Some b]) else Inl OutOfBounds)"

text \<open>Writing the bytes \<open>bs\<close> to \<^verbatim>\<open>buf[i]\<close>, \<^verbatim>\<open>buf[i+1]\<close>, ...\<close>

definition store :: "buffer \<Rightarrow> nat \<Rightarrow> byte list \<Rightarrow> error + buffer" where
  "store buf i bs =
     (if i + length bs \<le> length buf
      then Inr (take i buf @ map Some bs @ drop (i + length bs) buf)
      else Inl OutOfBounds)"

text \<open>
  The C string an array holds: its bytes before the first NUL. This is what \<^verbatim>\<open>%s\<close>,
  \<^verbatim>\<open>strlen\<close>, \<^verbatim>\<open>strcat\<close> and \<^verbatim>\<open>Serial.print\<close> scan.
\<close>

fun c_str :: "buffer \<Rightarrow> error + byte list" where
  "c_str [] = Inl OutOfBounds"
| "c_str (None # bs) = Inl Uninitialised"
| "c_str (Some b # bs) = (if b = 0 then Inr [] else bindE (c_str bs) (\<lambda>s. Inr (b # s)))"

definition strlen :: "buffer \<Rightarrow> error + nat" where
  "strlen buf = bindE (c_str buf) (\<lambda>s. Inr (length s))"

text \<open>The first \<open>n\<close> bytes of an array, as \<^verbatim>\<open>Serial1.write(buf, n)\<close> reads them.\<close>

fun fetch :: "buffer \<Rightarrow> nat \<Rightarrow> error + byte list" where
  "fetch buf 0 = Inr []"
| "fetch [] (Suc n) = Inl OutOfBounds"
| "fetch (None # bs) (Suc n) = Inl Uninitialised"
| "fetch (Some b # bs) (Suc n) = bindE (fetch bs n) (\<lambda>r. Inr (b # r))"

text \<open>\<^verbatim>\<open>strchr(s, c) != NULL\<close>: the scan stops at the first \<open>c\<close> or at the NUL.\<close>

fun strchr :: "buffer \<Rightarrow> byte \<Rightarrow> error + bool" where
  "strchr [] c = Inl OutOfBounds"
| "strchr (None # bs) c = Inl Uninitialised"
| "strchr (Some b # bs) c = (if b = c then Inr True else if b = 0 then Inr False else strchr bs c)"

text \<open>
  \<^verbatim>\<open>strcmp(s, lit) == 0\<close> and \<^verbatim>\<open>strncmp(s, lit, n) == 0\<close> against a string literal
  \<open>lit\<close> (given without its NUL): the comparison stops at the first difference.
\<close>

fun strcmp :: "buffer \<Rightarrow> byte list \<Rightarrow> error + bool" where
  "strcmp [] lit = Inl OutOfBounds"
| "strcmp (None # bs) lit = Inl Uninitialised"
| "strcmp (Some b # bs) [] = Inr (b = 0)"
| "strcmp (Some b # bs) (c # cs) = (if b = c then strcmp bs cs else Inr False)"

fun strncmp :: "buffer \<Rightarrow> byte list \<Rightarrow> nat \<Rightarrow> error + bool" where
  "strncmp buf lit 0 = Inr True"
| "strncmp [] lit (Suc n) = Inl OutOfBounds"
| "strncmp (None # bs) lit (Suc n) = Inl Uninitialised"
| "strncmp (Some b # bs) [] (Suc n) = Inr (b = 0)"
| "strncmp (Some b # bs) (c # cs) (Suc n) = (if b = c then strncmp bs cs n else Inr False)"

text \<open>
  \<^verbatim>\<open>snprintf(str, n, fmt, ...)\<close>, where \<open>out\<close> is the formatted text: at most
  \<open>n - 1\<close> bytes of it are written, then a NUL. \<^verbatim>\<open>sprintf\<close> and \<^verbatim>\<open>strcpy\<close> write
  all of it.
\<close>

definition snprintf :: "buffer \<Rightarrow> nat \<Rightarrow> byte list \<Rightarrow> error + buffer" where
  "snprintf str n out =
     (if n = 0 then Inr str else store str 0 (take (n - 1) out @ [0]))"

definition sprintf :: "buffer \<Rightarrow> byte list \<Rightarrow> error + buffer" where
  "sprintf str out = store str 0 (out @ [0])"

definition strcpy :: "buffer \<Rightarrow> byte list \<Rightarrow> error + buffer" where
  "strcpy dst lit = store dst 0 (lit @ [0])"

text \<open>
  \<^verbatim>\<open>strncpy(dst, src, n)\<close> copies the string of \<open>src\<close> and fills up with NULs until \<open>n\<close>
  bytes are written; a string of \<open>n\<close> bytes or more is cut after \<open>n\<close> bytes and gets
  no NUL. \<open>c_strn\<close> is the part of \<open>src\<close> it reads.
\<close>

fun c_strn :: "buffer \<Rightarrow> nat \<Rightarrow> error + byte list" where
  "c_strn buf 0 = Inr []"
| "c_strn [] (Suc n) = Inl OutOfBounds"
| "c_strn (None # bs) (Suc n) = Inl Uninitialised"
| "c_strn (Some b # bs) (Suc n) =
     (if b = 0 then Inr [] else bindE (c_strn bs n) (\<lambda>s. Inr (b # s)))"

definition strncpy :: "buffer \<Rightarrow> buffer \<Rightarrow> nat \<Rightarrow> error + buffer" where
  "strncpy dst src n =
     bindE (c_strn src n) (\<lambda>s. store dst 0 (s @ replicate (n - length s) 0))"

definition strcat :: "buffer \<Rightarrow> byte list \<Rightarrow> error + buffer" where
  "strcat dst lit = bindE (strlen dst) (\<lambda>len. store dst len (lit @ [0]))"

text \<open>\<^verbatim>\<open>memcpy(dst, src, n)\<close> from a byte sequence of at least \<open>n\<close> bytes.\<close>

definition memcpy :: "buffer \<Rightarrow> byte list \<Rightarrow> nat \<Rightarrow> error + buffer" where
  "memcpy dst src n = store dst 0 (take n src)"

section \<open>The device\<close>

text \<open>
  What the sketch acts on: the global message buffer \<^verbatim>\<open>flipdotMessage_str[256]\<close>, the
  bytes written so far to the USB debug port \<^verbatim>\<open>Serial\<close> and to the display port
  \<^verbatim>\<open>Serial1\<close>, and the levels written so far to \<^verbatim>\<open>lightingPin\<close> (\<open>True\<close> is HIGH),
  latest last.
\<close>

record device =
  flipdotMessage_str :: buffer
  Serial :: "byte list"
  Serial1 :: "byte list"
  lightingPin :: "bool list"

definition topic_message :: "byte list" where
  "topic_message = bytes ''home/flipdot/message''"

definition topic_lighting :: "byte list" where
  "topic_lighting = bytes ''home/flipdot/lighting''"

section \<open>FlipDot logic\<close>

subsection \<open>\<^verbatim>\<open>process_special_characters\<close>\<close>

text \<open>
  One round of the \<^verbatim>\<open>if\<close> chain of the loop body, on \<^verbatim>\<open>src[0]\<close> and \<^verbatim>\<open>src[1]\<close>: the
  byte written to \<^verbatim>\<open>*dst\<close> and the number of bytes \<^verbatim>\<open>src\<close> advances.
\<close>

definition special_character :: "byte \<Rightarrow> byte \<Rightarrow> byte \<times> nat" where
  "special_character s0 s1 =
     (if s0 = 0xC3 \<and> s1 = 0xA4 then (of_char CHR ''{'', 2)
      else if s0 = 0xC3 \<and> s1 = 0xB6 then (of_char CHR ''|'', 2)
      else if s0 = 0xC3 \<and> s1 = 0xBC then (of_char CHR ''}'', 2)
      else if s0 = 0xC3 \<and> s1 = 0x9F then (of_char CHR ''~'', 2)
      else if s0 = 0xC3 \<and> s1 = 0x84 then (of_char CHR ''['', 2)
      else if s0 = 0xC3 \<and> s1 = 0x96 then (of_char (CHR 0x5C), 2)
      else if s0 = 0xC3 \<and> s1 = 0x9C then (of_char CHR '']'', 2)
      else (s0, 1))"

lemma bindE_cong [fundef_cong]:
  "m = m' \<Longrightarrow> (\<And>x. m' = Inr x \<Longrightarrow> f x = f' x) \<Longrightarrow> bindE m f = bindE m' f'"
  by (cases m') (simp_all add: bindE_def)

text \<open>
  The loop, with \<^verbatim>\<open>src\<close> and \<^verbatim>\<open>dst\<close> as indices into the same array. \<^verbatim>\<open>src[1]\<close> is
  read only after \<^verbatim>\<open>src[0] == 0xC3\<close> (the \<^verbatim>\<open>&&\<close> of C).
\<close>

function process_loop :: "buffer \<Rightarrow> nat \<Rightarrow> nat \<Rightarrow> error + buffer" where
  "process_loop buf src dst =
     bindE (peek buf src) (\<lambda>s0.
       if s0 = 0 then poke buf dst 0
       else bindE (if s0 = 0xC3 then peek buf (src + 1) else Inr 0) (\<lambda>s1.
         bindE (poke buf dst (fst (special_character s0 s1))) (\<lambda>buf'.
           process_loop buf' (src + snd (special_character s0 s1)) (dst + 1))))"
  by pat_completeness auto
termination
proof (relation "measure (\<lambda>(buf, src, dst). length buf - src)")
  show "wf (measure (\<lambda>(buf, src, dst). length buf - src))"
    by simp
next
  fix buf :: buffer and src dst :: nat and s0 s1 :: byte and buf' :: buffer
  assume rd: "peek buf src = Inr s0"
    and wr: "poke buf dst (fst (special_character s0 s1)) = Inr buf'"
  from rd have "src < length buf"
    by (simp add: peek_def split: if_splits)
  moreover from wr have "length buf' = length buf"
    by (auto simp: poke_def split: if_splits)
  moreover have "0 < snd (special_character s0 s1)"
    by (simp add: special_character_def)
  ultimately show "((buf', src + snd (special_character s0 s1), dst + 1), (buf, src, dst))
      \<in> measure (\<lambda>(buf, src, dst). length buf - src)"
    by simp
qed

definition process_special_characters :: "buffer \<Rightarrow> error + buffer" where
  "process_special_characters telegram = process_loop telegram 0 0"

subsection \<open>\<^verbatim>\<open>compute_checksum\<close> and \<^verbatim>\<open>wrap_telegram\<close>\<close>

text \<open>The \<^verbatim>\<open>for\<close> loop of \<^verbatim>\<open>compute_checksum\<close>, on the rest of the array from \<^verbatim>\<open>msg[i]\<close>.\<close>

fun checksum_loop :: "buffer \<Rightarrow> byte \<Rightarrow> error + byte" where
  "checksum_loop [] checksum = Inl OutOfBounds"
| "checksum_loop (None # bs) checksum = Inl Uninitialised"
| "checksum_loop (Some b # bs) checksum =
     (if b = 0 then Inr checksum else checksum_loop bs (checksum XOR b))"

definition compute_checksum :: "buffer \<Rightarrow> error + byte" where
  "compute_checksum msg = checksum_loop msg 0x7F"

definition wrap_telegram :: "buffer \<Rightarrow> error + buffer" where
  "wrap_telegram telegram =
     bindE (strcat telegram [CR]) (\<lambda>telegram.
     bindE (compute_checksum telegram) (\<lambda>checksum.
     bindE (strlen telegram) (\<lambda>len.
     bindE (poke telegram len checksum) (\<lambda>telegram.
     poke telegram (len + 1) 0))))"

subsection \<open>\<^verbatim>\<open>vdv_hex\<close>\<close>

definition vdvhex :: "byte list" where
  "vdvhex = bytes ''0123456789:;<=>?''"

definition vdv_hex :: "int \<Rightarrow> buffer \<Rightarrow> error + buffer" where
  "vdv_hex v output =
     (if v < 0 \<or> v > 255 then strcpy output (bytes ''??'')
      else if v > 15
        then sprintf output [vdvhex ! nat (drop_bit 4 v), vdvhex ! nat (v AND 0x0F)]
        else sprintf output [vdvhex ! nat v])"

subsection \<open>\<^verbatim>\<open>send_telegram\<close>\<close>

text \<open>The debug line \<^verbatim>\<open>sprintf(hex, "%02X ", (uint8_t)c)\<close>.\<close>

definition hex02X :: "byte \<Rightarrow> byte list" where
  "hex02X c =
     [bytes ''0123456789ABCDEF'' ! unat (drop_bit 4 c),
      bytes ''0123456789ABCDEF'' ! unat (c AND 0x0F), SP]"

definition send_telegram :: "buffer \<Rightarrow> device \<Rightarrow> error + device" where
  "send_telegram telegram s =
     bindE (strncpy (replicate 256 None) telegram 255) (\<lambda>processed_telegram.
     bindE (process_special_characters processed_telegram) (\<lambda>processed_telegram.
     bindE (wrap_telegram processed_telegram) (\<lambda>processed_telegram.
     bindE (c_str processed_telegram) (\<lambda>shown.
     bindE (strlen processed_telegram) (\<lambda>n.
     bindE (fetch processed_telegram n) (\<lambda>sent.
       Inr (s\<lparr>Serial := Serial s @ bytes ''Sending HEX: '' @ concat (map hex02X shown) @ [CR, LF]
                    @ bytes ''Sending RAW: '' @ shown @ [CR, LF],
              Serial1 := Serial1 s @ sent\<rparr>)))))))"

subsection \<open>\<^verbatim>\<open>DS021t\<close>\<close>

text \<open>
  The message with its line breaks (the two \<^verbatim>\<open>snprintf\<close> calls into \<^verbatim>\<open>message[256]\<close>),
  and the block count from \<^verbatim>\<open>len\<close>. All numbers here are positive, so the division of C
  is \<open>div\<close>.
\<close>

definition DS021t_message :: "buffer \<Rightarrow> error + buffer" where
  "DS021t_message text =
     bindE (strchr text LF) (\<lambda>has_newline.
     bindE (c_str text) (\<lambda>t.
       if has_newline then snprintf (replicate 256 None) 256 (t @ [LF, LF])
       else snprintf (replicate 256 None) 256 (t @ [LF, LF, LF])))"

definition DS021t_num_blocks :: "int \<Rightarrow> int" where
  "DS021t_num_blocks len = (let total_len_with_padding = len + 2
                            in (total_len_with_padding + 15) div 16)"

text \<open>The padding loop \<^verbatim>\<open>for (int i = len; i < usable_bytes; i++) message[i] = ' '\<close>.\<close>

function pad_loop :: "buffer \<Rightarrow> int \<Rightarrow> int \<Rightarrow> error + buffer" where
  "pad_loop message i usable_bytes =
     (if i < usable_bytes
      then bindE (poke message (nat i) SP) (\<lambda>message. pad_loop message (i + 1) usable_bytes)
      else Inr message)"
  by pat_completeness auto
termination
  by (relation "measure (\<lambda>(message, i, usable_bytes). nat (usable_bytes - i))") auto

definition DS021t :: "int \<Rightarrow> buffer \<Rightarrow> device \<Rightarrow> error + device" where
  "DS021t address text s =
     bindE (DS021t_message text) (\<lambda>message.
     bindE (strlen message) (\<lambda>len.
       let num_blocks = DS021t_num_blocks (int len);
           usable_bytes = num_blocks * 16 - 2
       in
     bindE (pad_loop message (int len) usable_bytes) (\<lambda>message.
     bindE (poke message (nat usable_bytes) 0) (\<lambda>message.
     bindE (vdv_hex address (replicate 3 None)) (\<lambda>address_hex.
     bindE (vdv_hex num_blocks (replicate 3 None)) (\<lambda>num_blocks_hex.
     bindE (c_str address_hex) (\<lambda>a.
     bindE (c_str num_blocks_hex) (\<lambda>n.
     bindE (c_str message) (\<lambda>m.
     bindE (snprintf (replicate 256 None) 256 (bytes ''aA'' @ a @ n @ bytes ''A0'' @ m))
       (\<lambda>telegram. send_telegram telegram s))))))))))"

section \<open>MQTT handling\<close>

definition mqtt_callback :: "buffer \<Rightarrow> byte list \<Rightarrow> device \<Rightarrow> error + device" where
  "mqtt_callback topic payload s =
     bindE (memcpy (replicate 256 None) payload (min (length payload) (256 - 1))) (\<lambda>buffer.
     bindE (poke buffer (min (length payload) (256 - 1)) 0) (\<lambda>buffer.
     bindE (strcmp topic topic_message) (\<lambda>is_message.
       if is_message then
         let copy_len = min (length payload) (256 - 1) in
         bindE (memcpy (flipdotMessage_str s) payload copy_len) (\<lambda>stored.
         bindE (poke stored copy_len 0) (\<lambda>stored.
         bindE (c_str stored) (\<lambda>str.
         bindE (snprintf (replicate 256 None) 256 str) (\<lambda>display.
           DS021t 2 display (s\<lparr>flipdotMessage_str := stored\<rparr>)))))
       else
         bindE (strcmp topic topic_lighting) (\<lambda>is_lighting.
           if is_lighting then
             bindE (strncmp buffer (bytes ''On'') 2) (\<lambda>on.
               if on then Inr (s\<lparr>lightingPin := lightingPin s @ [True]\<rparr>)
               else bindE (strncmp buffer (bytes ''Off'') 3) (\<lambda>off.
                 if off then Inr (s\<lparr>lightingPin := lightingPin s @ [False]\<rparr>)
                 else Inr s))
           else Inr s))))"

section \<open>Reference functions\<close>

text \<open>
  From the specification, to compare the code with: the table of CharsetNormalizer
  (section 4.1) and the function on byte strings it describes (each listed two-byte
  sequence becomes its output byte, every other byte is passed on), and ChecksumComputer
  (section 4.3), the XOR fold over the bytes from \<open>0x7F\<close>.
\<close>

definition charset_table :: "(byte \<times> byte) list" where
  "charset_table =
     [(0xA4, of_char CHR ''{''), (0xB6, of_char CHR ''|''), (0xBC, of_char CHR ''}''),
      (0x9F, of_char CHR ''~''), (0x84, of_char CHR ''[''), (0x96, of_char (CHR 0x5C)),
      (0x9C, of_char CHR '']'')]"

fun CharsetNormalizer :: "byte list \<Rightarrow> byte list" where
  "CharsetNormalizer [] = []"
| "CharsetNormalizer [a] = [a]"
| "CharsetNormalizer (a # b # bs) =
     (case (if a = 0xC3 then map_of charset_table b else None) of
        Some r \<Rightarrow> r # CharsetNormalizer bs
      | None \<Rightarrow> a # CharsetNormalizer (b # bs))"

definition ChecksumComputer :: "byte list \<Rightarrow> byte" where
  "ChecksumComputer bs = fold (\<lambda>b acc. acc XOR b) bs 0x7F"

text \<open>
  VdvHexCodec (section 4.2) as a function to its one or two characters. The other
  functions are closed forms in which the results below are stated, each tied to the code
  by a lemma: the line breaks \<^verbatim>\<open>DS021t\<close> appends, the text of the telegram it assembles
  from a message that fits its arrays (\<open>DS021t_correct\<close>), the bytes that then reach
  \<^verbatim>\<open>Serial1\<close>, which are the normalized telegram with carriage return and checksum as
  far as \<^verbatim>\<open>strlen\<close> measures it, and the two debug lines on \<^verbatim>\<open>Serial\<close>
  (\<open>send_telegram_correct\<close>).
\<close>

definition VdvHexCodec :: "int \<Rightarrow> byte list" where
  "VdvHexCodec v =
     (if 0 \<le> v \<and> v \<le> 15 then [vdvhex ! nat v]
      else if 16 \<le> v \<and> v \<le> 255 then [vdvhex ! nat (v div 16), vdvhex ! nat (v mod 16)]
      else bytes ''??'')"

definition line_breaks :: "byte list \<Rightarrow> byte list" where
  "line_breaks t = (if LF \<in> set t then [LF, LF] else [LF, LF, LF])"

definition DS021t_telegram :: "int \<Rightarrow> byte list \<Rightarrow> byte list" where
  "DS021t_telegram address t =
     (let message = t @ line_breaks t;
          num_blocks = DS021t_num_blocks (int (length message));
          usable_bytes = nat (num_blocks * 16 - 2)
      in bytes ''aA'' @ VdvHexCodec address @ VdvHexCodec num_blocks @ bytes ''A0'' @
         message @ replicate (usable_bytes - length message) SP)"

definition on_wire :: "byte list \<Rightarrow> byte list" where
  "on_wire telegram =
     (let framed = CharsetNormalizer telegram @ [CR]
      in takeWhile (\<lambda>b. b \<noteq> 0) (framed @ [ChecksumComputer framed]))"

definition debug_lines :: "byte list \<Rightarrow> byte list" where
  "debug_lines shown =
     bytes ''Sending HEX: '' @ concat (map hex02X shown) @ [CR, LF] @
     bytes ''Sending RAW: '' @ shown @ [CR, LF]"

text \<open>
  A device for the examples: the message buffer zeroed as at program start, nothing
  written to the serial ports, the lighting pin written LOW once.
\<close>

definition blank :: device where
  "blank = \<lparr>flipdotMessage_str = replicate 256 (Some 0), Serial = [], Serial1 = [],
            lightingPin = [False]\<rparr>"

section \<open>Facts about the string library\<close>

lemma bindE_Inr [simp]: "bindE (Inr x) f = f x"
  by (simp add: bindE_def)

lemma bindE_Inl [simp]: "bindE (Inl e) f = Inl e"
  by (simp add: bindE_def)

lemma bindE_eq_Inr_iff: "bindE m f = Inr y \<longleftrightarrow> (\<exists>x. m = Inr x \<and> f x = Inr y)"
  by (cases m) simp_all

lemma c_str_terminated [simp]:
  "0 \<notin> set s \<Longrightarrow> c_str (map Some s @ Some 0 # rest) = Inr s"
  by (induction s) auto

lemma c_str_takeWhile:
  "c_str (map Some p @ Some 0 # rest) = Inr (takeWhile (\<lambda>b. b \<noteq> 0) p)"
  by (induction p) auto

lemma c_str_InrD:
  "c_str buf = Inr s \<Longrightarrow> 0 \<notin> set s \<and> buf = map Some s @ Some 0 # drop (Suc (length s)) buf"
proof (induction buf arbitrary: s rule: c_str.induct)
  case 1
  then show ?case by simp
next
  case (2 bs)
  then show ?case by simp
next
  case (3 b bs)
  show ?case
  proof (cases "b = 0")
    case True
    with 3 show ?thesis by simp
  next
    case False
    with "3.prems" obtain s' where s': "c_str bs = Inr s'" "s = b # s'"
      by (auto simp: bindE_eq_Inr_iff)
    with "3.IH" [OF False s'(1)] False show ?thesis by simp
  qed
qed

lemma c_str_nonzero: "c_str buf = Inr s \<Longrightarrow> 0 \<notin> set s"
  by (simp add: c_str_InrD)

lemma c_str_length: "c_str buf = Inr s \<Longrightarrow> length s < length buf"
proof -
  assume "c_str buf = Inr s"
  then have "buf = map Some s @ Some 0 # drop (Suc (length s)) buf"
    by (simp add: c_str_InrD)
  then have "length buf = length (map Some s @ Some 0 # drop (Suc (length s)) buf)"
    by simp
  then show ?thesis by simp
qed

lemma strlen_terminated [simp]:
  "0 \<notin> set s \<Longrightarrow> strlen (map Some s @ Some 0 # rest) = Inr (length s)"
  by (simp add: strlen_def)

lemma strlen_c_str: "c_str buf = Inr s \<Longrightarrow> strlen buf = Inr (length s)"
  by (simp add: strlen_def)

lemma fetch_prefix [simp]: "fetch (map Some s @ rest) (length s) = Inr s"
  by (induction s) auto

lemma strchr_terminated [simp]:
  "0 \<notin> set s \<Longrightarrow> c \<noteq> 0 \<Longrightarrow> strchr (map Some s @ Some 0 # rest) c = Inr (c \<in> set s)"
  by (induction s) auto

lemma strcmp_terminated [simp]:
  "0 \<notin> set s \<Longrightarrow> 0 \<notin> set lit \<Longrightarrow> strcmp (map Some s @ Some 0 # rest) lit = Inr (s = lit)"
proof (induction s arbitrary: lit)
  case Nil
  then show ?case by (cases lit) auto
next
  case (Cons a s)
  then show ?case by (cases lit) auto
qed

lemma strncmp_prefix:
  "0 \<notin> set lit \<Longrightarrow>
   strncmp (map Some p @ Some 0 # rest) lit (length lit) = Inr (take (length lit) p = lit)"
proof (induction lit arbitrary: p)
  case Nil
  then show ?case by simp
next
  case (Cons c cs)
  then show ?case by (cases p) auto
qed

lemma c_strn_terminated [simp]:
  "0 \<notin> set s \<Longrightarrow> c_strn (map Some s @ Some 0 # rest) n = Inr (take n s)"
proof (induction s arbitrary: n)
  case Nil
  then show ?case by (cases n) auto
next
  case (Cons a s)
  then show ?case by (cases n) auto
qed

lemma checksum_loop_terminated [simp]:
  "0 \<notin> set s \<Longrightarrow>
   checksum_loop (map Some s @ Some 0 # rest) ck = Inr (fold (\<lambda>b acc. acc XOR b) s ck)"
  by (induction s arbitrary: ck) auto

section \<open>Facts about the loops\<close>

declare process_loop.simps [simp del]
declare pad_loop.simps [simp del]

lemma special_character_table:
  "special_character a b =
     (case (if a = 0xC3 then map_of charset_table b else None) of
        Some r \<Rightarrow> (r, 2) | None \<Rightarrow> (a, 1))"
  by (simp add: special_character_def charset_table_def)

lemma charset_table_nonzero: "map_of charset_table b = Some r \<Longrightarrow> b \<noteq> 0 \<and> r \<noteq> 0"
  by (auto simp: charset_table_def split: if_splits)

lemma peek_nth: "i < length buf \<Longrightarrow> buf ! i = Some b \<Longrightarrow> peek buf i = Inr b"
  by (simp add: peek_def)

lemma c_str_drop_Nil:
  "c_str (drop i buf) = Inr [] \<Longrightarrow> i < length buf \<and> buf ! i = Some 0"
proof -
  assume a: "c_str (drop i buf) = Inr []"
  then have "drop i buf \<noteq> []" by auto
  then have i: "i < length buf" by simp
  then have d: "drop i buf = buf ! i # drop (Suc i) buf"
    by (simp add: Cons_nth_drop_Suc)
  with a have "buf ! i = Some 0"
    by (cases "buf ! i") (auto simp: bindE_eq_Inr_iff split: if_splits)
  with i show ?thesis by simp
qed

lemma c_str_drop_Cons:
  "c_str (drop i buf) = Inr (a # s) \<Longrightarrow>
     i < length buf \<and> buf ! i = Some a \<and> a \<noteq> 0 \<and> c_str (drop (Suc i) buf) = Inr s"
proof -
  assume a: "c_str (drop i buf) = Inr (a # s)"
  then have "drop i buf \<noteq> []" by auto
  then have i: "i < length buf" by simp
  then have d: "drop i buf = buf ! i # drop (Suc i) buf"
    by (simp add: Cons_nth_drop_Suc)
  with a have "buf ! i = Some a \<and> a \<noteq> 0 \<and> c_str (drop (Suc i) buf) = Inr s"
    by (cases "buf ! i") (auto simp: bindE_eq_Inr_iff split: if_splits)
  with i show ?thesis by simp
qed

lemma special_character_other: "s0 \<noteq> 0xC3 \<Longrightarrow> special_character s0 s1 = (s0, 1)"
  by (simp add: special_character_def)

lemma process_loop_stop:
  "src < length buf \<Longrightarrow> buf ! src = Some 0 \<Longrightarrow> process_loop buf src dst = poke buf dst 0"
  by (subst process_loop.simps) (simp add: peek_nth)

lemma process_loop_step:
  assumes "src < length buf" "buf ! src = Some s0" "s0 \<noteq> 0"
    and "Suc src < length buf" "buf ! Suc src = Some s1"
    and "special_character s0 s1 = (c, k)" "dst < length buf"
  shows "process_loop buf src dst = process_loop (buf[dst := Some c]) (src + k) (Suc dst)"
proof (cases "s0 = 0xC3")
  case True
  with assms show ?thesis
    by (subst process_loop.simps) (simp add: peek_nth poke_def)
next
  case False
  then have "special_character s0 0 = special_character s0 s1"
    by (simp add: special_character_other)
  with False assms show ?thesis
    by (subst process_loop.simps) (simp add: peek_nth poke_def)
qed

lemma process_loop_correct:
  "dst \<le> src \<Longrightarrow> c_str (drop src buf) = Inr s \<Longrightarrow>
   process_loop buf src dst =
     Inr (take dst buf @ map Some (CharsetNormalizer s) @
          Some 0 # drop (dst + length (CharsetNormalizer s) + 1) buf)"
proof (induction s arbitrary: buf src dst rule: CharsetNormalizer.induct)
  case 1
  then have "src < length buf" "buf ! src = Some 0"
    using c_str_drop_Nil by blast+
  with 1 show ?case
    by (simp add: process_loop_stop poke_def upd_conv_take_nth_drop)
next
  case (2 a)
  then have src: "src < length buf" "buf ! src = Some a" "a \<noteq> 0"
    and rest: "c_str (drop (Suc src) buf) = Inr []"
    using c_str_drop_Cons by blast+
  from rest have nxt: "Suc src < length buf" "buf ! Suc src = Some 0"
    using c_str_drop_Nil by blast+
  have sc: "special_character a 0 = (a, 1)"
    by (simp add: special_character_table charset_table_def)
  let ?buf' = "buf[dst := Some a]"
  have "process_loop buf src dst = process_loop ?buf' (src + 1) (Suc dst)"
    using src nxt sc 2 by (intro process_loop_step) simp_all
  also have "\<dots> = poke ?buf' (Suc dst) 0"
    using nxt 2 by (simp add: process_loop_stop)
  also have "\<dots> = Inr (take dst buf @ [Some a] @ Some 0 # drop (dst + 2) buf)"
    using 2 nxt by (simp add: poke_def upd_conv_take_nth_drop take_Suc_conv_app_nth)
  finally show ?case by simp
next
  case (3 a b bs)
  then have src: "src < length buf" "buf ! src = Some a" "a \<noteq> 0"
    and rest: "c_str (drop (Suc src) buf) = Inr (b # bs)"
    using c_str_drop_Cons by blast+
  from rest have nxt: "Suc src < length buf" "buf ! Suc src = Some b" "b \<noteq> 0"
    and rest2: "c_str (drop (Suc (Suc src)) buf) = Inr bs"
    using c_str_drop_Cons by blast+
  show ?case
  proof (cases "if a = 0xC3 then map_of charset_table b else None")
    case None
    then have sc: "special_character a b = (a, 1)"
      by (simp add: special_character_table)
    let ?buf' = "buf[dst := Some a]"
    have "process_loop buf src dst = process_loop ?buf' (src + 1) (Suc dst)"
      using src nxt sc "3.prems" by (intro process_loop_step) simp_all
    moreover have "c_str (drop (Suc src) ?buf') = Inr (b # bs)"
      using rest "3.prems" by simp
    with "3.IH"(1) [OF None, of "Suc dst" "Suc src" ?buf'] "3.prems"
    have "process_loop ?buf' (Suc src) (Suc dst) =
      Inr (take (Suc dst) ?buf' @ map Some (CharsetNormalizer (b # bs)) @
           Some 0 # drop (Suc dst + length (CharsetNormalizer (b # bs)) + 1) ?buf')"
      by simp
    moreover have "take (Suc dst) ?buf' = take dst buf @ [Some a]"
      using "3.prems" src by (simp add: take_Suc_conv_app_nth)
    ultimately show ?thesis
      using None by simp
  next
    case (Some r)
    then have sc: "special_character a b = (r, 2)"
      by (simp add: special_character_table)
    let ?buf' = "buf[dst := Some r]"
    have "process_loop buf src dst = process_loop ?buf' (src + 2) (Suc dst)"
      using src nxt sc "3.prems" by (intro process_loop_step) simp_all
    moreover have "c_str (drop (Suc (Suc src)) ?buf') = Inr bs"
      using rest2 "3.prems" by simp
    with "3.IH"(2) [OF Some, of "Suc dst" "Suc (Suc src)" ?buf'] "3.prems"
    have "process_loop ?buf' (Suc (Suc src)) (Suc dst) =
      Inr (take (Suc dst) ?buf' @ map Some (CharsetNormalizer bs) @
           Some 0 # drop (Suc dst + length (CharsetNormalizer bs) + 1) ?buf')"
      by simp
    moreover have "take (Suc dst) ?buf' = take dst buf @ [Some r]"
      using "3.prems" src by (simp add: take_Suc_conv_app_nth)
    ultimately show ?thesis
      using Some by simp
  qed
qed

lemma process_special_characters_correct:
  assumes "c_str buf = Inr s"
  shows "process_special_characters buf =
     Inr (map Some (CharsetNormalizer s) @ Some 0 # drop (length (CharsetNormalizer s) + 1) buf)"
  using process_loop_correct [of 0 0 buf s] assms
  by (simp add: process_special_characters_def)

lemma CharsetNormalizer_other [simp]:
  "a \<noteq> 0xC3 \<Longrightarrow> CharsetNormalizer (a # bs) = a # CharsetNormalizer bs"
  by (cases bs) simp_all

lemma CharsetNormalizer_length: "length (CharsetNormalizer s) \<le> length s"
  by (induction s rule: CharsetNormalizer.induct) (auto split: option.splits)

lemma CharsetNormalizer_nonzero: "0 \<notin> set s \<Longrightarrow> 0 \<notin> set (CharsetNormalizer s)"
  by (induction s rule: CharsetNormalizer.induct)
    (auto split: option.splits if_splits dest: charset_table_nonzero)

lemma CharsetNormalizer_plain: "0xC3 \<notin> set s \<Longrightarrow> CharsetNormalizer s = s"
  by (induction s) simp_all

lemma charset_table_range:
  "map_of charset_table b = Some r \<Longrightarrow> r \<noteq> 0xC3 \<and> map_of charset_table r = None"
  by (auto simp: charset_table_def split: if_splits)

lemma CharsetNormalizer_head:
  "\<exists>c rest. CharsetNormalizer (b # bs) = c # rest \<and>
     (c = b \<or> (c \<noteq> 0xC3 \<and> map_of charset_table c = None))"
proof (cases bs)
  case Nil
  then show ?thesis by simp
next
  case (Cons b' bs')
  then show ?thesis
    by (auto split: option.splits dest: charset_table_range)
qed

lemma CharsetNormalizer_idem: "CharsetNormalizer (CharsetNormalizer s) = CharsetNormalizer s"
proof (induction s rule: CharsetNormalizer.induct)
  case 1
  then show ?case by simp
next
  case (2 a)
  then show ?case by simp
next
  case (3 a b bs)
  show ?case
  proof (cases "if a = 0xC3 then map_of charset_table b else None")
    case (Some r)
    then have "r \<noteq> 0xC3"
      by (auto split: if_splits dest: charset_table_range)
    with Some "3.IH"(2) [OF Some] show ?thesis by simp
  next
    case None
    note ih = "3.IH"(1) [OF None]
    obtain c rest where c: "CharsetNormalizer (b # bs) = c # rest"
      and cb: "c = b \<or> (c \<noteq> 0xC3 \<and> map_of charset_table c = None)"
      using CharsetNormalizer_head by blast
    have "(if a = 0xC3 then map_of charset_table c else None) = None"
      using None cb by (auto split: if_splits)
    then have "CharsetNormalizer (a # c # rest) = a # CharsetNormalizer (c # rest)"
      by simp
    with None c ih show ?thesis by simp
  qed
qed

lemma pad_loop_ok:
  "0 \<le> i \<Longrightarrow> i \<le> u \<Longrightarrow> nat u \<le> length buf \<Longrightarrow>
   pad_loop buf i u = Inr (take (nat i) buf @ replicate (nat (u - i)) (Some SP) @ drop (nat u) buf)"
proof (induction buf i u rule: pad_loop.induct)
  case (1 message i usable_bytes)
  show ?case
  proof (cases "i < usable_bytes")
    case False
    with 1 show ?thesis
      by (subst pad_loop.simps) simp
  next
    case True
    let ?m = "message[nat i := Some SP]"
    have i: "nat i < length message" using True 1 by linarith
    then have p: "poke message (nat i) SP = Inr ?m"
      by (simp add: poke_def)
    have "pad_loop ?m (i + 1) usable_bytes =
      Inr (take (nat (i + 1)) ?m @ replicate (nat (usable_bytes - (i + 1))) (Some SP) @
           drop (nat usable_bytes) ?m)"
      using "1.IH" [OF True p] True "1.prems" by simp
    moreover have "take (nat (i + 1)) ?m = take (nat i) message @ [Some SP]"
      using i "1.prems" by (simp add: nat_add_distrib take_Suc_conv_app_nth)
    moreover have "drop (nat usable_bytes) ?m = drop (nat usable_bytes) message"
      using True "1.prems" by simp
    moreover have "Some SP # replicate (nat (usable_bytes - (i + 1))) (Some SP) =
        replicate (nat (usable_bytes - i)) (Some SP)"
    proof -
      have "nat (usable_bytes - i) = Suc (nat (usable_bytes - (i + 1)))"
        using True by linarith
      then show ?thesis by simp
    qed
    ultimately show ?thesis
      using True p by (subst pad_loop.simps) simp
  qed
qed

lemma pad_loop_overflow:
  "0 \<le> i \<Longrightarrow> i < u \<Longrightarrow> length buf < nat u \<Longrightarrow> pad_loop buf i u = Inl OutOfBounds"
proof (induction buf i u rule: pad_loop.induct)
  case (1 message i usable_bytes)
  show ?case
  proof (cases "nat i < length message")
    case False
    with 1 show ?thesis
      by (subst pad_loop.simps) (simp add: poke_def)
  next
    case True
    let ?m = "message[nat i := Some SP]"
    have p: "poke message (nat i) SP = Inr ?m"
      using True by (simp add: poke_def)
    have "i + 1 < usable_bytes" using True "1.prems" by linarith
    with "1.IH" [OF "1.prems"(2) p] "1.prems"
    have "pad_loop ?m (i + 1) usable_bytes = Inl OutOfBounds" by simp
    with p "1.prems" show ?thesis
      by (subst pad_loop.simps) simp
  qed
qed

lemma update_at_length: "length xs = n \<Longrightarrow> (xs @ y # ys)[n := z] = xs @ z # ys"
  by (induction xs arbitrary: n) auto

lemma wrap_telegram_correct:
  assumes "c_str telegram = Inr p" "length p + 3 \<le> length telegram"
  shows "wrap_telegram telegram =
     Inr (map Some (p @ [CR, ChecksumComputer (p @ [CR])]) @
          Some 0 # drop (length p + 3) telegram)"
proof -
  from assms(1) have nz: "0 \<notin> set p"
    and shape: "telegram = map Some p @ Some 0 # drop (Suc (length p)) telegram"
    using c_str_InrD by blast+
  let ?t1 = "map Some (p @ [CR]) @ Some 0 # drop (length p + 2) telegram"
  have "take (length p) telegram = map Some p"
    using shape by (metis append_eq_conv_conj length_map)
  then have cat: "strcat telegram [CR] = Inr ?t1"
    using assms by (simp add: strcat_def strlen_c_str store_def)
  have nz1: "0 \<notin> set (p @ [CR])" using nz by simp
  have ck: "compute_checksum ?t1 = Inr (ChecksumComputer (p @ [CR]))"
    unfolding compute_checksum_def ChecksumComputer_def
    using nz1 by (rule checksum_loop_terminated)
  have len: "strlen ?t1 = Inr (length p + 1)"
    using strlen_terminated [OF nz1] by simp
  have l1: "length ?t1 = length telegram" using assms(2) by simp
  let ?ck = "ChecksumComputer (p @ [CR])"
  have upd: "?t1[length p + 1 := Some ?ck, length p + 2 := Some 0] =
     map Some (p @ [CR, ?ck]) @ Some 0 # drop (length p + 3) telegram"
  proof -
    have b: "drop (length p + 2) telegram = telegram ! (length p + 2) # drop (length p + 3) telegram"
      using assms(2) Cons_nth_drop_Suc [of "length p + 2" telegram]
      by (simp add: numeral_3_eq_3 numeral_2_eq_2)
    have "?t1[length p + 1 := Some ?ck] =
      map Some (p @ [CR]) @ Some ?ck # drop (length p + 2) telegram"
      by (rule update_at_length) simp
    also have "\<dots> = map Some (p @ [CR, ?ck]) @
        telegram ! (length p + 2) # drop (length p + 3) telegram"
      using b by simp
    finally have "?t1[length p + 1 := Some ?ck, length p + 2 := Some 0] =
      (map Some (p @ [CR, ?ck]) @
        telegram ! (length p + 2) # drop (length p + 3) telegram)[length p + 2 := Some 0]"
      by simp
    also have "\<dots> = map Some (p @ [CR, ?ck]) @ Some 0 # drop (length p + 3) telegram"
      by (rule update_at_length) simp
    finally show ?thesis .
  qed
  show ?thesis
    unfolding wrap_telegram_def
    using cat ck len l1 assms(2) upd by (simp add: poke_def)
qed

lemma vdvhex_nonzero: "k < 16 \<Longrightarrow> vdvhex ! k \<noteq> 0"
proof -
  assume "k < 16"
  then have "vdvhex ! k \<in> set vdvhex"
    by (intro nth_mem) (simp add: vdvhex_def bytes_def)
  moreover have "0 \<notin> set vdvhex"
    by (simp add: vdvhex_def bytes_def)
  ultimately show ?thesis by metis
qed

lemma drop_past_prefix:
  "length xs = k \<Longrightarrow> k \<le> m \<Longrightarrow> drop m (xs @ drop k ys) = drop m ys"
  by simp

lemma nibbles: "drop_bit 4 (v::int) = v div 16" "v AND 0x0F = v mod 16"
proof -
  show "drop_bit 4 v = v div 16" by (simp add: drop_bit_eq_div)
  have "take_bit 4 v = v AND mask 4" by (rule take_bit_eq_mask)
  then show "v AND 0x0F = v mod 16"
    by (simp add: take_bit_eq_mod mask_eq_exp_minus_1)
qed

lemma store_0: "length bs \<le> length buf \<Longrightarrow> store buf 0 bs = Inr (map Some bs @ drop (length bs) buf)"
  by (simp add: store_def)

section \<open>Facts about the telegram pipeline\<close>

lemma VdvHexCodec_nonzero: "0 \<notin> set (VdvHexCodec v)"
proof -
  have "0 \<le> v \<Longrightarrow> v \<le> 15 \<Longrightarrow> vdvhex ! nat v \<noteq> 0"
    by (intro vdvhex_nonzero) linarith
  moreover have "16 \<le> v \<Longrightarrow> v \<le> 255 \<Longrightarrow> vdvhex ! nat (v div 16) \<noteq> 0"
    by (intro vdvhex_nonzero) linarith
  moreover have "16 \<le> v \<Longrightarrow> vdvhex ! nat (v mod 16) \<noteq> 0"
    by (intro vdvhex_nonzero) linarith
  ultimately show ?thesis
    by (auto simp: VdvHexCodec_def bytes_def)
qed

lemma VdvHexCodec_length: "length (VdvHexCodec v) \<le> 2"
  by (simp add: VdvHexCodec_def bytes_def)

lemma VdvHexCodec_length_small: "0 \<le> v \<Longrightarrow> v \<le> 15 \<Longrightarrow> length (VdvHexCodec v) = 1"
  by (simp add: VdvHexCodec_def)

lemma vdv_hex_correct:
  assumes "3 \<le> length output"
  shows "vdv_hex v output =
    Inr (map Some (VdvHexCodec v) @ Some 0 # drop (length (VdvHexCodec v) + 1) output)"
proof -
  have len: "length (VdvHexCodec v) + 1 \<le> length output"
    using assms VdvHexCodec_length [of v] by simp
  have "vdv_hex v output = store output 0 (VdvHexCodec v @ [0])"
    by (auto simp: vdv_hex_def VdvHexCodec_def sprintf_def strcpy_def nibbles)
  also have "\<dots> = Inr (map Some (VdvHexCodec v) @ Some 0 # drop (length (VdvHexCodec v) + 1) output)"
    using len by (simp add: store_0)
  finally show ?thesis .
qed

lemma c_str_vdv_hex:
  "bindE (vdv_hex v (replicate 3 None)) f =
     f (map Some (VdvHexCodec v) @ Some 0 # drop (length (VdvHexCodec v) + 1) (replicate 3 None))"
  by (simp add: vdv_hex_correct)

lemma snprintf_fresh:
  "snprintf (replicate 256 None) 256 out =
     Inr (map Some (take 255 out) @ Some 0 # replicate (255 - length (take 255 out)) None)"
proof -
  have "length (take 255 out @ [0]) \<le> length (replicate 256 (None :: byte option))"
    by simp
  then have "store (replicate 256 None) 0 (take 255 out @ [0]) =
     Inr (map Some (take 255 out @ [0]) @ drop (length (take 255 out @ [0])) (replicate 256 None))"
    by (rule store_0)
  then show ?thesis
    by (simp add: snprintf_def)
qed

lemma fetch_c_str: "c_str buf = Inr s \<Longrightarrow> fetch buf (length s) = Inr s"
proof -
  assume "c_str buf = Inr s"
  then have "buf = map Some s @ Some 0 # drop (Suc (length s)) buf"
    by (simp add: c_str_InrD)
  then have "fetch buf (length s) = fetch (map Some s @ Some 0 # drop (Suc (length s)) buf) (length s)"
    by simp
  then show ?thesis by (simp only: fetch_prefix)
qed

lemma send_telegram_correct:
  assumes "c_str telegram = Inr ts" and "length ts \<le> 252"
  shows "send_telegram telegram s =
     Inr (s\<lparr>Serial := Serial s @ debug_lines (on_wire ts), Serial1 := Serial1 s @ on_wire ts\<rparr>)"
proof -
  from assms(1) have nz: "0 \<notin> set ts"
    and shape: "telegram = map Some ts @ Some 0 # drop (Suc (length ts)) telegram"
    using c_str_InrD by blast+
  let ?fill = "replicate (255 - length ts) (0 :: byte)"
  let ?p0 = "map Some (ts @ ?fill) @ [None]"
  have "c_strn telegram 255 = c_strn (map Some ts @ Some 0 # drop (Suc (length ts)) telegram) 255"
    using shape by simp
  also have "\<dots> = Inr (take 255 ts)"
    using nz by (rule c_strn_terminated)
  finally have rd: "c_strn telegram 255 = Inr ts"
    using assms(2) by simp
  have "store (replicate 256 None) 0 (ts @ ?fill) =
      Inr (map Some (ts @ ?fill) @ drop (length (ts @ ?fill)) (replicate 256 None))"
    using assms(2) by (intro store_0) simp
  moreover have "drop (length (ts @ ?fill)) (replicate 256 (None :: byte option)) = [None]"
    using assms(2) by simp
  ultimately have cp: "strncpy (replicate 256 None) telegram 255 = Inr ?p0"
    using rd by (simp add: strncpy_def)
  have fill: "?fill = 0 # replicate (254 - length ts) 0"
  proof -
    have "255 - length ts = Suc (254 - length ts)" using assms(2) by simp
    then show ?thesis by simp
  qed
  have p0: "?p0 = map Some ts @ Some 0 # (map Some (replicate (254 - length ts) 0) @ [None])"
    by (subst fill) simp
  have c0: "c_str ?p0 = Inr ts"
    by (subst p0) (rule c_str_terminated [OF nz])
  let ?n = "CharsetNormalizer ts"
  let ?p1 = "map Some ?n @ Some 0 # drop (length ?n + 1) ?p0"
  have le: "length ?n \<le> length ts" by (rule CharsetNormalizer_length)
  have nzn: "0 \<notin> set ?n" using nz by (rule CharsetNormalizer_nonzero)
  have ps: "process_special_characters ?p0 = Inr ?p1"
    using c0 by (rule process_special_characters_correct)
  have c1: "c_str ?p1 = Inr ?n"
    using nzn by (rule c_str_terminated)
  have l1: "length ?p1 = 256" using le assms(2) by simp
  let ?ck = "ChecksumComputer (?n @ [CR])"
  let ?p2 = "map Some (?n @ [CR, ?ck]) @ Some 0 # drop (length ?n + 3) ?p1"
  have wr: "wrap_telegram ?p1 = Inr ?p2"
    using c1 le assms(2) l1 by (intro wrap_telegram_correct) simp_all
  have c2: "c_str ?p2 = Inr (on_wire ts)"
    by (simp only: c_str_takeWhile on_wire_def Let_def) simp
  have ln: "strlen ?p2 = Inr (length (on_wire ts))"
    using c2 by (rule strlen_c_str)
  have ft: "fetch ?p2 (length (on_wire ts)) = Inr (on_wire ts)"
    using c2 by (rule fetch_c_str)
  show ?thesis
    unfolding send_telegram_def
    by (simp only: cp ps wr c2 ln ft bindE_Inr debug_lines_def)
qed

lemma num_blocks_bounds:
  assumes "0 \<le> len"
  shows "len \<le> DS021t_num_blocks len * 16 - 2"
    and "DS021t_num_blocks len * 16 - 2 \<le> len + 15"
    and "1 \<le> DS021t_num_blocks len"
  using assms by (simp_all add: DS021t_num_blocks_def Let_def)

lemma num_blocks_ceiling:
  "DS021t_num_blocks len = \<lceil>real_of_int (len + 2) / 16\<rceil>"
proof -
  have "\<lceil>real_of_int (len + 2) / real_of_int 16\<rceil> = - ((- (len + 2)) div 16)"
    by (simp only: ceiling_divide_eq_div)
  also have "\<dots> = (len + 2 + 15) div 16"
    by linarith
  finally show ?thesis
    by (simp add: DS021t_num_blocks_def Let_def)
qed

lemma line_breaks_plain: "0 \<notin> set (line_breaks t)" "length (line_breaks t) \<le> 3"
  by (simp_all add: line_breaks_def)

lemma DS021t_message_correct:
  assumes "c_str text = Inr t"
  shows "DS021t_message text =
     Inr (map Some (take 255 (t @ line_breaks t)) @
          Some 0 # replicate (255 - length (take 255 (t @ line_breaks t))) None)"
proof -
  from assms have nz: "0 \<notin> set t"
    and shape: "text = map Some t @ Some 0 # drop (Suc (length t)) text"
    using c_str_InrD by blast+
  have "strchr text LF = strchr (map Some t @ Some 0 # drop (Suc (length t)) text) LF"
    using shape by simp
  also have "\<dots> = Inr (LF \<in> set t)"
    using nz by (intro strchr_terminated) simp_all
  finally have "strchr text LF = Inr (LF \<in> set t)" .
  then show ?thesis
    using assms by (simp add: DS021t_message_def line_breaks_def snprintf_fresh)
qed

lemma pad_and_terminate:
  assumes "take len buf = map Some msg" "length msg = len" "len \<le> u" "u < length buf"
  shows "bindE (pad_loop buf (int len) (int u)) (\<lambda>m. poke m u 0) =
     Inr (map Some (msg @ replicate (u - len) SP) @ Some 0 # drop (u + 1) buf)"
proof -
  let ?m = "take len buf @ replicate (u - len) (Some SP) @ drop u buf"
  have "pad_loop buf (int len) (int u) =
    Inr (take (nat (int len)) buf @ replicate (nat (int u - int len)) (Some SP) @ drop (nat (int u)) buf)"
    using assms by (intro pad_loop_ok) simp_all
  moreover have "nat (int u - int len) = u - len" by simp
  ultimately have pad: "pad_loop buf (int len) (int u) = Inr ?m"
    by simp
  have d: "drop u buf = buf ! u # drop (u + 1) buf"
    using assms(4) by (simp add: Cons_nth_drop_Suc)
  have "?m = (map Some msg @ replicate (u - len) (Some SP)) @ buf ! u # drop (u + 1) buf"
    using assms(1) d by simp
  moreover have "length (map Some msg @ replicate (u - len) (Some SP)) = u"
    using assms by simp
  ultimately have "?m[u := Some 0] =
      (map Some msg @ replicate (u - len) (Some SP)) @ Some 0 # drop (u + 1) buf"
    by (simp only: update_at_length)
  moreover have "length ?m = length buf" using assms by simp
  ultimately have "poke ?m u 0 =
      Inr (map Some (msg @ replicate (u - len) SP) @ Some 0 # drop (u + 1) buf)"
    using assms(4) by (simp add: poke_def)
  with pad show ?thesis by simp
qed

lemma DS021t_telegram_nonzero: "0 \<notin> set t \<Longrightarrow> 0 \<notin> set (DS021t_telegram address t)"
  using VdvHexCodec_nonzero line_breaks_plain(1) [of t]
  by (simp add: DS021t_telegram_def Let_def bytes_def)

lemma DS021t_runs:
  assumes "c_str text = Inr t" and "length (t @ line_breaks t) \<le> 254"
  shows "DS021t address text s =
     send_telegram
       (map Some (take 255 (DS021t_telegram address t)) @ Some 0 #
        replicate (255 - length (take 255 (DS021t_telegram address t))) None) s"
proof -
  let ?msg = "t @ line_breaks t"
  let ?len = "length ?msg"
  let ?nb = "DS021t_num_blocks (int ?len)"
  let ?u = "nat (?nb * 16 - 2)"
  let ?m0 = "map Some ?msg @ Some 0 # replicate (255 - ?len) None"
  let ?padded = "?msg @ replicate (?u - ?len) SP"
  let ?m2 = "map Some ?padded @ Some 0 # drop (?u + 1) ?m0"
  let ?T = "DS021t_telegram address t"
  let ?tel = "map Some (take 255 ?T) @ Some 0 # replicate (255 - length (take 255 ?T)) None"
  from assms(1) have nz: "0 \<notin> set t" by (rule c_str_nonzero)
  have nzm: "0 \<notin> set ?msg" using nz line_breaks_plain by simp
  have tk: "take 255 ?msg = ?msg" using assms(2) by simp
  have msg: "DS021t_message text = Inr ?m0"
    using DS021t_message_correct [OF assms(1)] by (simp only: tk)
  have len: "strlen ?m0 = Inr ?len"
    using nzm by (rule strlen_terminated)
  have b: "int ?len \<le> ?nb * 16 - 2" "?nb * 16 - 2 \<le> int ?len + 15" "1 \<le> ?nb"
    using num_blocks_bounds [of "int ?len"] by simp_all
  have nb16: "?nb \<le> 16"
    using assms(2) by (simp add: DS021t_num_blocks_def Let_def)
  have u: "?len \<le> ?u" "?u < 256" "int ?u = ?nb * 16 - 2"
    using b nb16 by linarith+
  have "take ?len ?m0 = map Some ?msg" by simp
  then have pad: "bindE (pad_loop ?m0 (int ?len) (int ?u)) (\<lambda>m. poke m ?u 0) = Inr ?m2"
    using u assms(2) by (intro pad_and_terminate) simp_all
  have nzp: "0 \<notin> set ?padded" using nzm by simp
  have cm: "c_str ?m2 = Inr ?padded"
    using nzp by (rule c_str_terminated)
  have ca: "c_str (map Some (VdvHexCodec address) @ Some 0 #
      drop (length (VdvHexCodec address) + 1) (replicate 3 None)) = Inr (VdvHexCodec address)"
    using VdvHexCodec_nonzero by (rule c_str_terminated)
  have cn: "c_str (map Some (VdvHexCodec ?nb) @ Some 0 #
      drop (length (VdvHexCodec ?nb) + 1) (replicate 3 None)) = Inr (VdvHexCodec ?nb)"
    using VdvHexCodec_nonzero by (rule c_str_terminated)
  have T: "?T = bytes ''aA'' @ VdvHexCodec address @ VdvHexCodec ?nb @ bytes ''A0'' @ ?padded"
    by (simp add: DS021t_telegram_def Let_def)
  have sn: "snprintf (replicate 256 None) 256 ?T = Inr ?tel"
    by (rule snprintf_fresh)
  have "DS021t address text s =
      bindE (bindE (pad_loop ?m0 (int ?len) (int ?u)) (\<lambda>m. poke m ?u 0)) (\<lambda>message.
        bindE (vdv_hex address (replicate 3 None)) (\<lambda>address_hex.
        bindE (vdv_hex ?nb (replicate 3 None)) (\<lambda>num_blocks_hex.
        bindE (c_str address_hex) (\<lambda>a.
        bindE (c_str num_blocks_hex) (\<lambda>n.
        bindE (c_str message) (\<lambda>m.
        bindE (snprintf (replicate 256 None) 256 (bytes ''aA'' @ a @ n @ bytes ''A0'' @ m))
          (\<lambda>telegram. send_telegram telegram s)))))))"
    unfolding DS021t_def
    by (simp only: msg len bindE_Inr Let_def u(3)) (simp add: bindE_def split: sum.splits)
  also have "\<dots> = send_telegram ?tel s"
    by (simp only: pad bindE_Inr c_str_vdv_hex ca cn cm sn flip: T)
  finally show ?thesis .
qed

lemma DS021t_telegram_length:
  "length (DS021t_telegram address t) =
     4 + length (VdvHexCodec address) +
     length (VdvHexCodec (DS021t_num_blocks (int (length (t @ line_breaks t))))) +
     nat (DS021t_num_blocks (int (length (t @ line_breaks t))) * 16 - 2)"
proof -
  define m where "m = t @ line_breaks t"
  define u where "u = nat (DS021t_num_blocks (int (length m)) * 16 - 2)"
  have "int (length m) \<le> DS021t_num_blocks (int (length m)) * 16 - 2"
    using num_blocks_bounds(1) [of "int (length m)"] by simp
  then have "length m \<le> u" unfolding u_def by linarith
  then have "length (bytes ''aA'' @ VdvHexCodec address @
      VdvHexCodec (DS021t_num_blocks (int (length m))) @ bytes ''A0'' @
      m @ replicate (u - length m) SP) =
     4 + length (VdvHexCodec address) +
     length (VdvHexCodec (DS021t_num_blocks (int (length m)))) + u"
    by (simp add: bytes_def)
  then show ?thesis
    unfolding DS021t_telegram_def Let_def u_def m_def by simp
qed

lemma DS021t_correct:
  assumes "c_str text = Inr t" and "length (t @ line_breaks t) \<le> 238"
  shows "DS021t address text s =
     Inr (s\<lparr>Serial := Serial s @ debug_lines (on_wire (DS021t_telegram address t)),
            Serial1 := Serial1 s @ on_wire (DS021t_telegram address t)\<rparr>)"
proof -
  let ?T = "DS021t_telegram address t"
  let ?nb = "DS021t_num_blocks (int (length (t @ line_breaks t)))"
  have nb: "1 \<le> ?nb" "?nb \<le> 15"
    using assms(2) by (simp_all add: DS021t_num_blocks_def Let_def)
  then have "length (VdvHexCodec ?nb) = 1"
    by (intro VdvHexCodec_length_small) simp_all
  moreover have "nat (?nb * 16 - 2) \<le> 238" using nb by linarith
  ultimately have lenT: "length ?T \<le> 245"
    using VdvHexCodec_length [of address] by (simp only: DS021t_telegram_length)
  have nzT: "0 \<notin> set ?T"
    using c_str_nonzero [OF assms(1)] by (rule DS021t_telegram_nonzero)
  have "take 255 ?T = ?T" using lenT by simp
  then have run: "DS021t address text s =
      send_telegram (map Some ?T @ Some 0 # replicate (255 - length ?T) None) s"
    using DS021t_runs [OF assms(1), of address s] assms(2) by simp
  have "c_str (map Some ?T @ Some 0 # replicate (255 - length ?T) None) = Inr ?T"
    using nzT by (rule c_str_terminated)
  then show ?thesis
    unfolding run using lenT by (intro send_telegram_correct) simp_all
qed

lemma strncmp_prefix_n:
  "0 \<notin> set lit \<Longrightarrow> n = length lit \<Longrightarrow>
   strncmp (map Some p @ Some 0 # rest) lit n = Inr (take n p = lit)"
  by (simp add: strncmp_prefix)

lemma DS021t_overflow:
  assumes "c_str text = Inr t" and "255 \<le> length (t @ line_breaks t)"
  shows "DS021t address text s = Inl OutOfBounds"
proof -
  define msg where "msg = take 255 (t @ line_breaks t)"
  let ?m0 = "map Some msg @ [Some 0]"
  from assms(1) have nz: "0 \<notin> set t" by (rule c_str_nonzero)
  have nzm: "0 \<notin> set msg"
    using nz line_breaks_plain(1) [of t] by (auto simp: msg_def dest: in_set_takeD)
  have l: "length msg = 255" using assms(2) by (simp add: msg_def)
  have msg: "DS021t_message text = Inr ?m0"
    using DS021t_message_correct [OF assms(1)] l by (simp add: msg_def)
  have len: "strlen ?m0 = Inr 255"
    using strlen_terminated [OF nzm, of "[]"] l by simp
  have nb: "DS021t_num_blocks (int 255) * 16 - 2 = 270"
    by (simp add: DS021t_num_blocks_def)
  have ovf: "pad_loop ?m0 (int 255) 270 = Inl OutOfBounds"
    using l by (intro pad_loop_overflow) simp_all
  show ?thesis
    unfolding DS021t_def
    by (simp only: msg len bindE_Inr Let_def nb ovf bindE_Inl)
qed

lemma stored_copy:
  assumes "length p \<le> 255" and "length g = 256"
  shows "bindE (store g 0 p) (\<lambda>b. poke b (length p) 0) =
     Inr (map Some p @ Some 0 # drop (length p + 1) g)"
proof -
  have d: "drop (length p) g = g ! length p # drop (length p + 1) g"
    using assms by (simp add: Cons_nth_drop_Suc)
  have "store g 0 p = Inr (map Some p @ drop (length p) g)"
    using assms by (simp add: store_0)
  moreover have "length (map Some p @ drop (length p) g) = 256"
    using assms by simp
  moreover have "(map Some p @ drop (length p) g)[length p := Some 0] =
      map Some p @ Some 0 # drop (length p + 1) g"
    by (subst d) (simp only: update_at_length length_map)
  ultimately show ?thesis
    using assms(1) by (simp add: poke_def)
qed

lemma copy_payload:
  "bindE (memcpy dst payload (min (length payload) (256 - 1)))
      (\<lambda>b. poke b (min (length payload) (256 - 1)) 0) =
   bindE (store dst 0 (take 255 payload)) (\<lambda>b. poke b (length (take 255 payload)) 0)"
  by (simp add: memcpy_def min_def)

lemma local_buffer:
  "bindE (memcpy (replicate 256 None) payload (min (length payload) (256 - 1)))
       (\<lambda>buffer. poke buffer (min (length payload) (256 - 1)) 0) =
     Inr (map Some (take 255 payload) @ Some 0 # replicate (255 - length (take 255 payload)) None)"
proof -
  define p where "p = take 255 payload"
  have lp: "length p \<le> 255" by (simp add: p_def)
  have "bindE (store (replicate 256 None) 0 p) (\<lambda>b. poke b (length p) 0) =
     Inr (map Some p @ Some 0 # drop (length p + 1) (replicate 256 None))"
    using lp by (intro stored_copy) simp_all
  moreover have "drop (length p + 1) (replicate 256 (None :: byte option)) =
      replicate (255 - length p) None"
    by simp
  ultimately show ?thesis
    by (simp only: copy_payload flip: p_def)
qed

lemma mqtt_callback_message:
  assumes "c_str topic = Inr topic_message" and "length (flipdotMessage_str s) = 256"
  shows "mqtt_callback topic payload s =
     DS021t 2
       (map Some (takeWhile (\<lambda>b. b \<noteq> 0) (take 255 payload)) @ Some 0 #
        replicate (255 - length (takeWhile (\<lambda>b. b \<noteq> 0) (take 255 payload))) None)
       (s\<lparr>flipdotMessage_str :=
            map Some (take 255 payload) @ Some 0 #
            drop (length (take 255 payload) + 1) (flipdotMessage_str s)\<rparr>)"
proof -
  define p where "p = take 255 payload"
  define str where "str = takeWhile (\<lambda>b. b \<noteq> 0) p"
  let ?stored = "map Some p @ Some 0 # drop (length p + 1) (flipdotMessage_str s)"
  have lp: "length p \<le> 255" by (simp add: p_def)
  from assms(1) have shape: "topic = map Some topic_message @ Some 0 # drop (Suc (length topic_message)) topic"
    and nzt: "0 \<notin> set topic_message"
    using c_str_InrD by blast+
  have "strcmp topic topic_message =
      strcmp (map Some topic_message @ Some 0 # drop (Suc (length topic_message)) topic) topic_message"
    using shape by simp
  also have "\<dots> = Inr (topic_message = topic_message)"
    using nzt nzt by (rule strcmp_terminated)
  finally have cmp: "strcmp topic topic_message = Inr True" by simp
  have st: "bindE (store (flipdotMessage_str s) 0 p) (\<lambda>b. poke b (length p) 0) = Inr ?stored"
    using lp assms(2) by (rule stored_copy)
  have cs: "c_str ?stored = Inr str"
    unfolding str_def by (rule c_str_takeWhile)
  have "length str \<le> 255"
    using length_takeWhile_le [of "\<lambda>b. b \<noteq> 0" p] lp by (simp add: str_def)
  then have tk: "take 255 str = str" by simp
  have sn: "snprintf (replicate 256 None) 256 str =
      Inr (map Some str @ Some 0 # replicate (255 - length str) None)"
    using snprintf_fresh [of str] by (simp only: tk)
  have "mqtt_callback topic payload s =
     bindE (bindE (memcpy (replicate 256 None) payload (min (length payload) (256 - 1)))
        (\<lambda>buffer. poke buffer (min (length payload) (256 - 1)) 0)) (\<lambda>buffer.
       bindE (bindE (memcpy (flipdotMessage_str s) payload (min (length payload) (256 - 1)))
          (\<lambda>stored. poke stored (min (length payload) (256 - 1)) 0)) (\<lambda>stored.
         bindE (c_str stored) (\<lambda>str.
         bindE (snprintf (replicate 256 None) 256 str) (\<lambda>display.
           DS021t 2 display (s\<lparr>flipdotMessage_str := stored\<rparr>)))))"
    unfolding mqtt_callback_def
    by (simp only: cmp bindE_Inr Let_def if_True) (simp add: bindE_def split: sum.splits)
  also have "\<dots> =
       bindE (bindE (store (flipdotMessage_str s) 0 p) (\<lambda>b. poke b (length p) 0)) (\<lambda>stored.
         bindE (c_str stored) (\<lambda>str.
         bindE (snprintf (replicate 256 None) 256 str) (\<lambda>display.
           DS021t 2 display (s\<lparr>flipdotMessage_str := stored\<rparr>))))"
    by (simp only: local_buffer bindE_Inr) (simp only: copy_payload flip: p_def)
  also have "\<dots> = DS021t 2 (map Some str @ Some 0 # replicate (255 - length str) None)
       (s\<lparr>flipdotMessage_str := ?stored\<rparr>)"
    by (simp only: st cs sn bindE_Inr)
  finally show ?thesis
    by (simp only: str_def p_def)
qed

lemma strcmp_c_str:
  assumes "c_str buf = Inr s" "0 \<notin> set lit"
  shows "strcmp buf lit = Inr (s = lit)"
proof -
  from assms(1) have shape: "buf = map Some s @ Some 0 # drop (Suc (length s)) buf"
    and nz: "0 \<notin> set s"
    using c_str_InrD by blast+
  have "strcmp buf lit = strcmp (map Some s @ Some 0 # drop (Suc (length s)) buf) lit"
    using shape by simp
  also have "\<dots> = Inr (s = lit)"
    using nz assms(2) by (rule strcmp_terminated)
  finally show ?thesis .
qed

lemma topics_plain: "0 \<notin> set topic_message" "0 \<notin> set topic_lighting"
  by (simp_all add: topic_message_def topic_lighting_def bytes_def)

lemma topics_differ: "topic_lighting \<noteq> topic_message"
  by (simp add: topic_message_def topic_lighting_def bytes_def)

lemma vdvhex_plain: "k < 16 \<Longrightarrow> vdvhex ! k \<noteq> 0xC3"
proof -
  assume "k < 16"
  then have "vdvhex ! k \<in> set vdvhex"
    by (intro nth_mem) (simp add: vdvhex_def bytes_def)
  moreover have "0xC3 \<notin> set vdvhex"
    by (simp add: vdvhex_def bytes_def)
  ultimately show ?thesis by metis
qed

lemma VdvHexCodec_plain: "0xC3 \<notin> set (VdvHexCodec v)"
proof -
  have "0 \<le> v \<Longrightarrow> v \<le> 15 \<Longrightarrow> vdvhex ! nat v \<noteq> 0xC3"
    by (intro vdvhex_plain) linarith
  moreover have "16 \<le> v \<Longrightarrow> v \<le> 255 \<Longrightarrow> vdvhex ! nat (v div 16) \<noteq> 0xC3"
    by (intro vdvhex_plain) linarith
  moreover have "16 \<le> v \<Longrightarrow> vdvhex ! nat (v mod 16) \<noteq> 0xC3"
    by (intro vdvhex_plain) linarith
  ultimately show ?thesis
    by (auto simp: VdvHexCodec_def bytes_def)
qed

lemma on_wire_plain:
  assumes "0 \<notin> set T" "0xC3 \<notin> set T"
  shows "on_wire T = T @ CR # (if ChecksumComputer (T @ [CR]) = 0 then []
                              else [ChecksumComputer (T @ [CR])])"
proof -
  have "takeWhile (\<lambda>b. b \<noteq> 0) ((T @ [CR]) @ [ChecksumComputer (T @ [CR])]) =
      (T @ [CR]) @ takeWhile (\<lambda>b. b \<noteq> 0) [ChecksumComputer (T @ [CR])]"
    using assms(1) by (intro takeWhile_append2) auto
  then show ?thesis
    using assms(2) by (simp add: on_wire_def CharsetNormalizer_plain)
qed

lemma takeWhile_nonzero: "0 \<notin> set (takeWhile (\<lambda>b. b \<noteq> 0) p)"
  by (auto dest: set_takeWhileD)

lemma mqtt_callback_display:
  assumes "c_str topic = Inr topic_message" and "length (flipdotMessage_str s) = 256"
    and "str = takeWhile (\<lambda>b. b \<noteq> 0) (take 255 payload)"
    and "length (str @ line_breaks str) \<le> 238"
  shows "mqtt_callback topic payload s =
     Inr (s\<lparr>flipdotMessage_str := map Some (take 255 payload) @ Some 0 #
              drop (length (take 255 payload) + 1) (flipdotMessage_str s),
            Serial := Serial s @ debug_lines (on_wire (DS021t_telegram 2 str)),
            Serial1 := Serial1 s @ on_wire (DS021t_telegram 2 str)\<rparr>)"
proof -
  let ?display = "map Some str @ Some 0 # replicate (255 - length str) None"
  have "0 \<notin> set str"
    unfolding assms(3) by (rule takeWhile_nonzero)
  then have "c_str ?display = Inr str"
    by (rule c_str_terminated)
  then have "DS021t 2 ?display (s\<lparr>flipdotMessage_str := map Some (take 255 payload) @ Some 0 #
              drop (length (take 255 payload) + 1) (flipdotMessage_str s)\<rparr>) =
     Inr (s\<lparr>flipdotMessage_str := map Some (take 255 payload) @ Some 0 #
              drop (length (take 255 payload) + 1) (flipdotMessage_str s),
            Serial := Serial s @ debug_lines (on_wire (DS021t_telegram 2 str)),
            Serial1 := Serial1 s @ on_wire (DS021t_telegram 2 str)\<rparr>)"
    using assms(4) by (simp add: DS021t_correct)
  then show ?thesis
    using mqtt_callback_message [OF assms(1,2), of payload] by (simp only: assms(3))
qed

lemma mqtt_callback_overflow:
  assumes "c_str topic = Inr topic_message" and "length (flipdotMessage_str s) = 256"
    and "str = takeWhile (\<lambda>b. b \<noteq> 0) (take 255 payload)"
    and "255 \<le> length (str @ line_breaks str)"
  shows "mqtt_callback topic payload s = Inl OutOfBounds"
proof -
  let ?display = "map Some str @ Some 0 # replicate (255 - length str) None"
  have "0 \<notin> set str"
    unfolding assms(3) by (rule takeWhile_nonzero)
  then have "c_str ?display = Inr str"
    by (rule c_str_terminated)
  then have "DS021t 2 ?display (s\<lparr>flipdotMessage_str := map Some (take 255 payload) @ Some 0 #
              drop (length (take 255 payload) + 1) (flipdotMessage_str s)\<rparr>) = Inl OutOfBounds"
    using assms(4) by (rule DS021t_overflow)
  then show ?thesis
    using mqtt_callback_message [OF assms(1,2), of payload] by (simp only: assms(3))
qed

lemma topic_buffers:
  "c_str (map Some topic_message @ [Some 0]) = Inr topic_message"
  "c_str (map Some topic_lighting @ [Some 0]) = Inr topic_lighting"
  by (simp_all add: topics_plain)

lemma blank_length: "length (flipdotMessage_str blank) = 256"
  by (simp add: blank_def)

lemma spaces: "replicate 6 SP = [SP, SP, SP, SP, SP, SP]"
  "replicate 9 SP = [SP, SP, SP, SP, SP, SP, SP, SP, SP]"
  "replicate 10 SP = [SP, SP, SP, SP, SP, SP, SP, SP, SP, SP]"
  by (simp_all add: numeral_eq_Suc)

lemma telegram_umlaut:
  "DS021t_telegram 2 [0xC3, 0xBC] = bytes ''aA21A0'' @ [0xC3, 0xBC, LF, LF, LF] @ replicate 9 SP"
  by (simp add: DS021t_telegram_def line_breaks_def DS021t_num_blocks_def
        VdvHexCodec_def vdvhex_def bytes_def Let_def)

lemma wire_umlaut:
  "on_wire (bytes ''aA21A0'' @ [0xC3, 0xBC, LF, LF, LF] @ replicate 9 SP) =
     bytes ''aA21A0}'' @ [LF, LF, LF] @ replicate 9 SP @ [CR, 0x77]"
  unfolding spaces
  by (simp add: on_wire_def bytes_def ChecksumComputer_def charset_table_def Let_def)

lemma telegram_star:
  "DS021t_telegram 2 (bytes ''*'') = bytes ''aA21A0*'' @ [LF, LF, LF] @ replicate 10 SP"
  by (simp add: DS021t_telegram_def line_breaks_def DS021t_num_blocks_def
        VdvHexCodec_def vdvhex_def bytes_def Let_def)

lemma wire_star:
  "on_wire (bytes ''aA21A0*'' @ [LF, LF, LF] @ replicate 10 SP) =
     bytes ''aA21A0*'' @ [LF, LF, LF] @ replicate 10 SP @ [CR]"
  "ChecksumComputer (bytes ''aA21A0*'' @ [LF, LF, LF] @ replicate 10 SP @ [CR]) = 0"
  unfolding spaces
  by (simp_all add: on_wire_def bytes_def ChecksumComputer_def charset_table_def Let_def)

lemma sent_umlaut:
  "on_wire (DS021t_telegram 2 [0xC3, 0xBC]) =
     bytes ''aA21A0}'' @ [LF, LF, LF] @ replicate 9 SP @ [CR, 0x77]"
  by (simp only: telegram_umlaut wire_umlaut)

lemma sent_star:
  "on_wire (DS021t_telegram 2 (bytes ''*'')) =
     bytes ''aA21A0*'' @ [LF, LF, LF] @ replicate 10 SP @ [CR]"
  by (simp only: telegram_star wire_star)

lemma num_blocks_ceiling_nat: "DS021t_num_blocks (int n) = \<lceil>real (n + 2) / 16\<rceil>"
  using num_blocks_ceiling [of "int n"] by (simp add: add.commute)

lemma telegram_brace:
  "DS021t_telegram 2 (bytes ''}'') = bytes ''aA21A0}'' @ [LF, LF, LF] @ replicate 10 SP"
  by (simp add: DS021t_telegram_def line_breaks_def DS021t_num_blocks_def
        VdvHexCodec_def vdvhex_def bytes_def Let_def)

lemma wire_brace:
  "on_wire (bytes ''aA21A0}'' @ [LF, LF, LF] @ replicate 10 SP) =
     bytes ''aA21A0}'' @ [LF, LF, LF] @ replicate 10 SP @ [CR, 0x57]"
  unfolding spaces
  by (simp add: on_wire_def bytes_def ChecksumComputer_def charset_table_def Let_def)

lemma sent_brace:
  "on_wire (DS021t_telegram 2 (bytes ''}'')) =
     bytes ''aA21A0}'' @ [LF, LF, LF] @ replicate 10 SP @ [CR, 0x57]"
  by (simp only: telegram_brace wire_brace)

lemma DS021t_message_strlen:
  assumes "c_str text = Inr t" and "length (t @ line_breaks t) \<le> 255"
  shows "bindE (DS021t_message text) strlen = Inr (length (t @ line_breaks t))"
proof -
  let ?msg = "t @ line_breaks t"
  let ?m0 = "map Some ?msg @ Some 0 # replicate (255 - length ?msg) None"
  have "take 255 ?msg = ?msg" using assms(2) by simp
  then have run: "DS021t_message text = Inr ?m0"
    using DS021t_message_correct [OF assms(1)] by (simp only:)
  have "0 \<notin> set ?msg"
    using c_str_nonzero [OF assms(1)] line_breaks_plain(1) [of t] by simp
  then have "strlen ?m0 = Inr (length ?msg)"
    by (rule strlen_terminated)
  then show ?thesis
    by (simp only: run bindE_Inr)
qed

text \<open>
  For a text without the byte \<open>0xC3\<close> that fits the arrays, the padded message that
  reaches \<^verbatim>\<open>Serial1\<close> between \<^verbatim>\<open>A0\<close> and the carriage return is
  \<open>16 * num_blocks - 2\<close> bytes long: the block of the padding loop counts the two bytes
  of \<^verbatim>\<open>A0\<close>.
\<close>

lemma DS021t_plain_text_aligned:
  assumes "c_str text = Inr t" and "0xC3 \<notin> set t" and "length (t @ line_breaks t) \<le> 238"
  shows "\<exists>s' message ck.
     DS021t address text s = Inr s' \<and>
     Serial1 s' = Serial1 s @ bytes ''aA'' @ VdvHexCodec address @
        VdvHexCodec (DS021t_num_blocks (int (length (t @ line_breaks t)))) @
        bytes ''A0'' @ message @ CR # (if ck = 0 then [] else [ck]) \<and>
     message = t @ line_breaks t @ replicate (length message - length (t @ line_breaks t)) SP \<and>
     int (length message) = DS021t_num_blocks (int (length (t @ line_breaks t))) * 16 - 2 \<and>
     length (bytes ''A0'' @ message) mod 16 = 0 \<and>
     ck = ChecksumComputer (bytes ''aA'' @ VdvHexCodec address @
        VdvHexCodec (DS021t_num_blocks (int (length (t @ line_breaks t)))) @
        bytes ''A0'' @ message @ [CR])"
proof -
  let ?msg = "t @ line_breaks t"
  let ?nb = "DS021t_num_blocks (int (length ?msg))"
  let ?u = "nat (?nb * 16 - 2)"
  let ?message = "?msg @ replicate (?u - length ?msg) SP"
  let ?T = "DS021t_telegram address t"
  let ?ck = "ChecksumComputer (?T @ [CR])"
  from assms(1) have nz: "0 \<notin> set t" by (rule c_str_nonzero)
  have b: "int (length ?msg) \<le> ?nb * 16 - 2" "1 \<le> ?nb"
    using num_blocks_bounds [of "int (length ?msg)"] by simp_all
  then have u: "length ?msg \<le> ?u" "int ?u = ?nb * 16 - 2" by linarith+
  have T: "?T = bytes ''aA'' @ VdvHexCodec address @ VdvHexCodec ?nb @ bytes ''A0'' @ ?message"
    by (simp add: DS021t_telegram_def Let_def)
  have nzT: "0 \<notin> set ?T" using nz by (rule DS021t_telegram_nonzero)
  have plain: "0xC3 \<notin> set ?T"
    using assms(2) VdvHexCodec_plain by (simp add: T bytes_def line_breaks_def)
  have run: "DS021t address text s =
     Inr (s\<lparr>Serial := Serial s @ debug_lines (on_wire ?T), Serial1 := Serial1 s @ on_wire ?T\<rparr>)"
    using assms(1,3) by (rule DS021t_correct)
  have wire: "on_wire ?T = bytes ''aA'' @ VdvHexCodec address @ VdvHexCodec ?nb @ bytes ''A0'' @
      ?message @ CR # (if ?ck = 0 then [] else [?ck])"
    using on_wire_plain [OF nzT plain] by (simp only: T append_assoc)
  have len: "length ?message = ?u" using u by simp
  have "?u - length ?msg = length ?message - length ?msg"
    by (simp only: len)
  then have shape: "?message = t @ line_breaks t @ replicate (length ?message - length ?msg) SP"
    by (simp only: append_assoc)
  have size: "int (length ?message) = ?nb * 16 - 2"
    by (simp only: len u)
  have "int (length (bytes ''A0'' @ ?message)) = ?nb * 16"
    using size by (simp add: bytes_def)
  then have "int (length (bytes ''A0'' @ ?message)) mod 16 = 0"
    by simp
  then have aligned: "length (bytes ''A0'' @ ?message) mod 16 = 0"
    by presburger
  let ?s' = "s\<lparr>Serial := Serial s @ debug_lines (on_wire ?T), Serial1 := Serial1 s @ on_wire ?T\<rparr>"
  have out: "Serial1 ?s' =
      Serial1 s @ bytes ''aA'' @ VdvHexCodec address @ VdvHexCodec ?nb @ bytes ''A0'' @
      ?message @ CR # (if ?ck = 0 then [] else [?ck])"
    by (simp add: wire)
  have ck: "?ck = ChecksumComputer (bytes ''aA'' @ VdvHexCodec address @ VdvHexCodec ?nb @
      bytes ''A0'' @ ?message @ [CR])"
    by (simp only: T append_assoc)
  show ?thesis
  proof (intro exI conjI)
    show "DS021t address text s = Inr ?s'" by (fact run)
    show "Serial1 ?s' =
      Serial1 s @ bytes ''aA'' @ VdvHexCodec address @ VdvHexCodec ?nb @ bytes ''A0'' @
      ?message @ CR # (if ?ck = 0 then [] else [?ck])" by (fact out)
    show "?message = t @ line_breaks t @ replicate (length ?message - length ?msg) SP"
      by (fact shape)
    show "int (length ?message) = ?nb * 16 - 2" by (fact size)
    show "length (bytes ''A0'' @ ?message) mod 16 = 0" by (fact aligned)
    show "?ck = ChecksumComputer (bytes ''aA'' @ VdvHexCodec address @ VdvHexCodec ?nb @
      bytes ''A0'' @ ?message @ [CR])" by (fact ck)
  qed
qed

section \<open>The claims\<close>

text \<open>
  Claim C1 fails on the code. It says that the padded message stays aligned to the
  16-byte block when the text holds mapped two-byte sequences, since normalization comes
  before the padding arithmetic. In the code \<^verbatim>\<open>DS021t\<close> counts and pads the bytes as they
  arrive, and \<^verbatim>\<open>process_special_characters\<close> runs later, in \<^verbatim>\<open>send_telegram\<close>, on the
  padded telegram. The display-text command with the two UTF-8 bytes of u-umlaut sends 13
  bytes between \<^verbatim>\<open>A0\<close> and the carriage return, one less than it was padded to; the
  same command with the byte \<^verbatim>\<open>}\<close> that the umlaut is mapped to sends 14, the length
  the padding loop aims at.
\<close>

theorem umlaut_payload_misaligned:
  "map_sum id Serial1 (mqtt_callback (map Some topic_message @ [Some 0]) [0xC3, 0xBC] blank) =
     Inr (bytes ''aA21A0'' @ (bytes ''}'' @ [LF, LF, LF] @ replicate 9 SP) @ [CR, 0x77]) \<and>
   length (bytes ''}'' @ [LF, LF, LF] @ replicate 9 SP) = 13 \<and>
   map_sum id Serial1 (mqtt_callback (map Some topic_message @ [Some 0]) (bytes ''}'') blank) =
     Inr (bytes ''aA21A0'' @ (bytes ''}'' @ [LF, LF, LF] @ replicate 10 SP) @ [CR, 0x57]) \<and>
   length (bytes ''}'' @ [LF, LF, LF] @ replicate 10 SP) = 14"
proof -
  have "mqtt_callback (map Some topic_message @ [Some 0]) [0xC3, 0xBC] blank =
     Inr (blank\<lparr>flipdotMessage_str := map Some (take 255 [0xC3, 0xBC]) @ Some 0 #
              drop (length (take 255 [0xC3, 0xBC :: byte]) + 1) (flipdotMessage_str blank),
            Serial := Serial blank @ debug_lines (on_wire (DS021t_telegram 2 [0xC3, 0xBC])),
            Serial1 := Serial1 blank @ on_wire (DS021t_telegram 2 [0xC3, 0xBC])\<rparr>)"
    using topic_buffers(1) blank_length
    by (rule mqtt_callback_display) (simp_all add: line_breaks_def)
  then have umlaut: "map_sum id Serial1
      (mqtt_callback (map Some topic_message @ [Some 0]) [0xC3, 0xBC] blank) =
      Inr (bytes ''aA21A0}'' @ [LF, LF, LF] @ replicate 9 SP @ [CR, 0x77])"
    by (simp add: sent_umlaut blank_def)
  have "mqtt_callback (map Some topic_message @ [Some 0]) (bytes ''}'') blank =
     Inr (blank\<lparr>flipdotMessage_str := map Some (take 255 (bytes ''}'')) @ Some 0 #
              drop (length (take 255 (bytes ''}'')) + 1) (flipdotMessage_str blank),
            Serial := Serial blank @ debug_lines (on_wire (DS021t_telegram 2 (bytes ''}''))),
            Serial1 := Serial1 blank @ on_wire (DS021t_telegram 2 (bytes ''}''))\<rparr>)"
    using topic_buffers(1) blank_length
    by (rule mqtt_callback_display) (simp_all add: bytes_def line_breaks_def)
  then have brace: "map_sum id Serial1
      (mqtt_callback (map Some topic_message @ [Some 0]) (bytes ''}'') blank) =
      Inr (bytes ''aA21A0}'' @ [LF, LF, LF] @ replicate 10 SP @ [CR, 0x57])"
    by (simp add: sent_brace blank_def)
  show ?thesis
    unfolding umlaut brace by (simp add: bytes_def)
qed

text \<open>
  Claim C2 fails on the code. A display-text command with 252 letters \<^verbatim>\<open>A\<close> makes a
  message of 255 bytes in \<^verbatim>\<open>message[256]\<close>; \<^verbatim>\<open>num_blocks\<close> is 17 and
  \<^verbatim>\<open>usable_bytes\<close> 270. The command is not rejected: the padding loop runs from index
  255 to 269 and writes outside the array.
\<close>

theorem long_message_overflows:
  "mqtt_callback (map Some topic_message @ [Some 0]) (replicate 252 0x41) blank = Inl OutOfBounds \<and>
   bindE (DS021t_message (map Some (replicate 252 0x41) @ [Some 0])) strlen = Inr 255 \<and>
   DS021t_num_blocks 255 * 16 - 2 = 270 \<and>
   pad_loop (map Some (replicate 252 0x41 @ [LF, LF, LF]) @ [Some 0]) 255 270 = Inl OutOfBounds \<and>
   length (map Some (replicate 252 (0x41 :: byte) @ [LF, LF, LF]) @ [Some 0]) = 256"
proof (intro conjI)
  show "mqtt_callback (map Some topic_message @ [Some 0]) (replicate 252 0x41) blank = Inl OutOfBounds"
    using topic_buffers(1) blank_length
    by (rule mqtt_callback_overflow [where str = "replicate 252 0x41"])
      (simp_all add: line_breaks_def)
  let ?t = "replicate 252 (0x41 :: byte)"
  have "c_str (map Some ?t @ [Some 0]) = Inr ?t"
    by (rule c_str_terminated) simp
  then have "DS021t_message (map Some ?t @ [Some 0]) =
     Inr (map Some (take 255 (?t @ line_breaks ?t)) @
          Some 0 # replicate (255 - length (take 255 (?t @ line_breaks ?t))) None)"
    by (rule DS021t_message_correct)
  moreover have "take 255 (?t @ line_breaks ?t) = ?t @ [LF, LF, LF]"
    by (simp add: line_breaks_def)
  ultimately have m: "DS021t_message (map Some ?t @ [Some 0]) =
     Inr (map Some (?t @ [LF, LF, LF]) @ Some 0 # replicate (255 - length (?t @ [LF, LF, LF])) None)"
    by (simp only:)
  have "strlen (map Some (?t @ [LF, LF, LF]) @ Some 0 #
      replicate (255 - length (?t @ [LF, LF, LF])) None) = Inr (length (?t @ [LF, LF, LF]))"
    by (rule strlen_terminated) simp
  then show "bindE (DS021t_message (map Some ?t @ [Some 0])) strlen = Inr 255"
    by (simp only: m bindE_Inr) simp
  show "DS021t_num_blocks 255 * 16 - 2 = 270"
    by (simp add: DS021t_num_blocks_def)
  show "pad_loop (map Some (?t @ [LF, LF, LF]) @ [Some 0]) 255 270 = Inl OutOfBounds"
    by (rule pad_loop_overflow) simp_all
  show "length (map Some (?t @ [LF, LF, LF]) @ [Some 0]) = 256"
    by simp
qed

text \<open>
  Claim C3 fails on the code. The display-text command with the one-byte payload
  \<^verbatim>\<open>*\<close> builds a telegram whose checksum is \<open>0x00\<close>; \<^verbatim>\<open>send_telegram\<close> takes the
  length from \<^verbatim>\<open>strlen\<close>, which stops at that byte, so \<^verbatim>\<open>Serial1\<close> receives the
  payload and the carriage return without the checksum.
\<close>

theorem checksum_zero_not_sent:
  "ChecksumComputer (bytes ''aA21A0*'' @ [LF, LF, LF] @ replicate 10 SP @ [CR]) = 0 \<and>
   map_sum id Serial1 (mqtt_callback (map Some topic_message @ [Some 0]) (bytes ''*'') blank) =
     Inr (bytes ''aA21A0*'' @ [LF, LF, LF] @ replicate 10 SP @ [CR])"
proof -
  have "mqtt_callback (map Some topic_message @ [Some 0]) (bytes ''*'') blank =
     Inr (blank\<lparr>flipdotMessage_str := map Some (take 255 (bytes ''*'')) @ Some 0 #
              drop (length (take 255 (bytes ''*'')) + 1) (flipdotMessage_str blank),
            Serial := Serial blank @ debug_lines (on_wire (DS021t_telegram 2 (bytes ''*''))),
            Serial1 := Serial1 blank @ on_wire (DS021t_telegram 2 (bytes ''*''))\<rparr>)"
    using topic_buffers(1) blank_length
    by (rule mqtt_callback_display) (simp_all add: bytes_def line_breaks_def)
  then have "map_sum id Serial1 (mqtt_callback (map Some topic_message @ [Some 0]) (bytes ''*'') blank) =
      Inr (bytes ''aA21A0*'' @ [LF, LF, LF] @ replicate 10 SP @ [CR])"
    by (simp add: sent_star blank_def)
  with wire_star(2) show ?thesis by simp
qed

text \<open>
  Claim C4. For every NUL-terminated payload in an array with room for two more bytes and
  the NUL, \<^verbatim>\<open>wrap_telegram\<close> leaves exactly \<open>length payload + 2\<close> bytes before the NUL
  it writes: the payload, a carriage return, and one checksum byte, which is the XOR fold
  from \<open>0x7F\<close> over the payload and the carriage return. Running \<^verbatim>\<open>compute_checksum\<close> over
  all bytes but the last gives the last byte, and \<^verbatim>\<open>compute_checksum("A")\<close> is
  \<open>0x7F XOR 0x41 = 0x3E\<close>.
\<close>

theorem wrap_telegram_frames:
  assumes "c_str telegram = Inr payload" and "length payload + 3 \<le> length telegram"
  shows "\<exists>framed ck. wrap_telegram telegram = Inr framed \<and>
     length framed = length telegram \<and>
     take (length payload + 2) framed = map Some (payload @ [CR, ck]) \<and>
     framed ! (length payload + 2) = Some 0 \<and>
     ck = ChecksumComputer (payload @ [CR]) \<and>
     ck = fold (\<lambda>b acc. acc XOR b) (payload @ [CR]) 0x7F \<and>
     compute_checksum (map Some (butlast (payload @ [CR, ck])) @ [Some 0]) =
       Inr (last (payload @ [CR, ck])) \<and>
     compute_checksum (map Some (bytes ''A'') @ [Some 0]) = Inr (0x7F XOR 0x41) \<and>
     (0x7F XOR 0x41) = (0x3E :: byte)"
proof -
  let ?ck = "ChecksumComputer (payload @ [CR])"
  let ?framed = "map Some (payload @ [CR, ?ck]) @ Some 0 # drop (length payload + 3) telegram"
  have w: "wrap_telegram telegram = Inr ?framed"
    using assms by (rule wrap_telegram_correct)
  have len: "length ?framed = length telegram"
    using assms(2) by simp
  have tk: "take (length payload + 2) ?framed = map Some (payload @ [CR, ?ck])"
    by simp
  have nul: "?framed ! (length payload + 2) = Some 0"
    using nth_append_length [of "map Some (payload @ [CR, ?ck])"] by simp
  have nz: "0 \<notin> set (payload @ [CR])"
    using assms(1) c_str_nonzero by auto
  have again: "compute_checksum (map Some (butlast (payload @ [CR, ?ck])) @ [Some 0]) =
      Inr (last (payload @ [CR, ?ck]))"
    unfolding compute_checksum_def
    using checksum_loop_terminated [OF nz, of "[]" "0x7F"]
    by (simp add: butlast_append ChecksumComputer_def)
  have ex: "compute_checksum (map Some (bytes ''A'') @ [Some 0]) = Inr (0x7F XOR 0x41)"
    by (simp add: compute_checksum_def bytes_def)
  show ?thesis
    using w len tk nul again ex by (simp add: ChecksumComputer_def)
qed

theorem wrap_telegram_frames_witness:
  "\<exists>framed. wrap_telegram (map Some (bytes ''A'') @ replicate 3 (Some 0)) = Inr framed \<and>
     take 3 framed = map Some [0x41, CR, 0x33] \<and> framed ! 3 = Some 0"
  using wrap_telegram_frames [of "map Some (bytes ''A'') @ replicate 3 (Some 0)" "bytes ''A''"]
  by (auto simp: bytes_def ChecksumComputer_def numeral_3_eq_3)

text \<open>
  Claim C5. \<^verbatim>\<open>vdv_hex\<close>, writing into an output array of at least three cells, leaves there
  as C string: for a value in [0,15] exactly one character, the one at index value of the
  alphabet \<^verbatim>\<open>0123456789:;<=>?\<close>; for a value in [16,255] exactly two characters, the
  high nibble then the low nibble through that alphabet; for any other value (negative or
  above 255) the two characters \<^verbatim>\<open>??\<close>.
\<close>

theorem vdv_hex_emits:
  assumes "3 \<le> length output"
  shows "\<exists>out. vdv_hex v output = Inr out \<and> length out = length output \<and>
     c_str out = Inr (if 0 \<le> v \<and> v \<le> 15 then [vdvhex ! nat v]
                      else if 16 \<le> v \<and> v \<le> 255
                        then [vdvhex ! nat (v div 16), vdvhex ! nat (v mod 16)]
                        else bytes ''??'')"
proof -
  define digits where "digits =
    (if 0 \<le> v \<and> v \<le> 15 then [vdvhex ! nat v]
     else if 16 \<le> v \<and> v \<le> 255 then [vdvhex ! nat (v div 16), vdvhex ! nat (v mod 16)]
     else bytes ''??'')"
  have len: "length digits + 1 \<le> length output"
    using assms by (simp add: digits_def bytes_def)
  have nz: "0 \<notin> set digits"
  proof -
    have "0 \<le> v \<Longrightarrow> v \<le> 15 \<Longrightarrow> vdvhex ! nat v \<noteq> 0"
      by (intro vdvhex_nonzero) linarith
    moreover have "16 \<le> v \<Longrightarrow> v \<le> 255 \<Longrightarrow> vdvhex ! nat (v div 16) \<noteq> 0"
      by (intro vdvhex_nonzero) linarith
    moreover have "16 \<le> v \<Longrightarrow> vdvhex ! nat (v mod 16) \<noteq> 0"
      by (intro vdvhex_nonzero) linarith
    ultimately show ?thesis
      by (auto simp: digits_def bytes_def)
  qed
  have "vdv_hex v output = store output 0 (digits @ [0])"
    by (auto simp: vdv_hex_def digits_def sprintf_def strcpy_def nibbles)
  also have "\<dots> = Inr (map Some digits @ Some 0 # drop (length digits + 1) output)"
    using len by (simp add: store_0)
  finally have run: "vdv_hex v output =
      Inr (map Some digits @ Some 0 # drop (length digits + 1) output)" .
  moreover have "length (map Some digits @ Some 0 # drop (length digits + 1) output) = length output"
    using len by simp
  moreover have "c_str (map Some digits @ Some 0 # drop (length digits + 1) output) = Inr digits"
    using nz by (rule c_str_terminated)
  ultimately show ?thesis
    unfolding digits_def by blast
qed

theorem vdv_hex_emits_witness:
  "(\<exists>out. vdv_hex 7 (replicate 3 None) = Inr out \<and> length out = 3 \<and> c_str out = Inr (bytes ''7'')) \<and>
   (\<exists>out. vdv_hex 200 (replicate 3 None) = Inr out \<and> length out = 3 \<and> c_str out = Inr (bytes ''<8'')) \<and>
   (\<exists>out. vdv_hex 256 (replicate 3 None) = Inr out \<and> length out = 3 \<and> c_str out = Inr (bytes ''??'')) \<and>
   (\<exists>out. vdv_hex (- 1) (replicate 3 None) = Inr out \<and> length out = 3 \<and> c_str out = Inr (bytes ''??''))"
  using vdv_hex_emits [of "replicate 3 None" 7] vdv_hex_emits [of "replicate 3 None" 200]
    vdv_hex_emits [of "replicate 3 None" 256] vdv_hex_emits [of "replicate 3 None" "- 1"]
  by (simp add: vdvhex_def bytes_def)

text \<open>
  Claim C6. For every NUL-terminated array, \<^verbatim>\<open>process_special_characters\<close> rewrites it
  in place (same array length, the cells behind the old NUL untouched) and stops at the
  first NUL; the C string it leaves is the CharsetNormalizer image of the one it found: the
  seven listed two-byte sequences replaced by their single bytes, every other byte, a lone
  \<open>0xC3\<close> included, passed on; so the result is never longer than the input. The witness
  is the seven bytes of "Mueller" written with u-umlaut, which become the six bytes
  \<^verbatim>\<open>M}ller\<close>, and a string with two lone \<open>0xC3\<close> bytes, which stays as it is.
\<close>

theorem process_special_characters_normalizes:
  assumes "c_str telegram = Inr s"
  shows "\<exists>out. process_special_characters telegram = Inr out \<and>
     length out = length telegram \<and>
     c_str out = Inr (CharsetNormalizer s) \<and>
     length (CharsetNormalizer s) \<le> length s \<and>
     drop (length s + 1) out = drop (length s + 1) telegram"
proof -
  let ?n = "CharsetNormalizer s"
  let ?out = "map Some ?n @ Some 0 # drop (length ?n + 1) telegram"
  have le: "length ?n \<le> length s" by (rule CharsetNormalizer_length)
  have lt: "length s < length telegram" using assms by (rule c_str_length)
  have nz: "0 \<notin> set ?n"
    using assms c_str_nonzero CharsetNormalizer_nonzero by blast
  have "process_special_characters telegram = Inr ?out"
    using assms by (rule process_special_characters_correct)
  moreover have "length ?out = length telegram" using le lt by simp
  moreover have "c_str ?out = Inr ?n" using nz by simp
  moreover have "drop (length s + 1) ?out = drop (length s + 1) telegram"
    using drop_past_prefix [of "map Some ?n @ [Some 0]" "length ?n + 1" "length s + 1" telegram] le
    by simp
  ultimately show ?thesis using le by simp
qed

theorem process_special_characters_normalizes_witness:
  "(\<exists>out. process_special_characters
       (map Some [0x4D, 0xC3, 0xBC, 0x6C, 0x6C, 0x65, 0x72] @ [Some 0]) = Inr out \<and>
     length out = 8 \<and> c_str out = Inr (bytes ''M}ller'') \<and> length (bytes ''M}ller'') = 6) \<and>
   (\<exists>out. process_special_characters (map Some [0xC3, 0x41, 0xC3] @ [Some 0]) = Inr out \<and>
     c_str out = Inr [0xC3, 0x41, 0xC3])"
  using process_special_characters_normalizes
    [of "map Some [0x4D, 0xC3, 0xBC, 0x6C, 0x6C, 0x65, 0x72] @ [Some 0]"
      "[0x4D, 0xC3, 0xBC, 0x6C, 0x6C, 0x65, 0x72]"]
    process_special_characters_normalizes
    [of "map Some [0xC3, 0x41, 0xC3] @ [Some 0]" "[0xC3, 0x41, 0xC3]"]
  by (auto simp: bytes_def charset_table_def)

text \<open>
  Claim C7. On the lighting topic, a payload that begins with the two bytes \<^verbatim>\<open>On\<close>
  writes the pin HIGH; otherwise one that begins with the three bytes \<^verbatim>\<open>Off\<close> writes
  it LOW (so \<^verbatim>\<open>Offline\<close> does); the comparison is on the exact bytes, and any other
  payload leaves the device as it was, without an error.
\<close>

theorem lighting_prefix_match:
  assumes "c_str topic = Inr topic_lighting"
  shows "mqtt_callback topic payload s =
     (if take 2 payload = bytes ''On'' then Inr (s\<lparr>lightingPin := lightingPin s @ [True]\<rparr>)
      else if take 3 payload = bytes ''Off'' then Inr (s\<lparr>lightingPin := lightingPin s @ [False]\<rparr>)
      else Inr s)"
proof -
  let ?buffer = "map Some (take 255 payload) @ Some 0 # replicate (255 - length (take 255 payload)) None"
  have c1: "strcmp topic topic_message = Inr False"
    using strcmp_c_str [OF assms topics_plain(1)] topics_differ by simp
  have c2: "strcmp topic topic_lighting = Inr True"
    using strcmp_c_str [OF assms topics_plain(2)] by simp
  have "strncmp ?buffer (bytes ''On'') 2 = Inr (take 2 (take 255 payload) = bytes ''On'')"
    by (rule strncmp_prefix_n) (simp_all add: bytes_def)
  then have on: "strncmp ?buffer (bytes ''On'') 2 = Inr (take 2 payload = bytes ''On'')"
    by simp
  have "strncmp ?buffer (bytes ''Off'') 3 = Inr (take 3 (take 255 payload) = bytes ''Off'')"
    by (rule strncmp_prefix_n) (simp_all add: bytes_def)
  then have off: "strncmp ?buffer (bytes ''Off'') 3 = Inr (take 3 payload = bytes ''Off'')"
    by simp
  have "mqtt_callback topic payload s =
     bindE (bindE (memcpy (replicate 256 None) payload (min (length payload) (256 - 1)))
       (\<lambda>buffer. poke buffer (min (length payload) (256 - 1)) 0)) (\<lambda>buffer.
         bindE (strncmp buffer (bytes ''On'') 2) (\<lambda>on.
               if on then Inr (s\<lparr>lightingPin := lightingPin s @ [True]\<rparr>)
               else bindE (strncmp buffer (bytes ''Off'') 3) (\<lambda>off.
                 if off then Inr (s\<lparr>lightingPin := lightingPin s @ [False]\<rparr>)
                 else Inr s)))"
    unfolding mqtt_callback_def
    by (simp only: c1 c2 bindE_Inr if_True if_False) (simp add: bindE_def split: sum.splits)
  also have "\<dots> = bindE (strncmp ?buffer (bytes ''On'') 2) (\<lambda>on.
               if on then Inr (s\<lparr>lightingPin := lightingPin s @ [True]\<rparr>)
               else bindE (strncmp ?buffer (bytes ''Off'') 3) (\<lambda>off.
                 if off then Inr (s\<lparr>lightingPin := lightingPin s @ [False]\<rparr>)
                 else Inr s))"
    by (simp only: local_buffer bindE_Inr)
  also have "\<dots> = (if take 2 payload = bytes ''On'' then Inr (s\<lparr>lightingPin := lightingPin s @ [True]\<rparr>)
      else if take 3 payload = bytes ''Off'' then Inr (s\<lparr>lightingPin := lightingPin s @ [False]\<rparr>)
      else Inr s)"
    by (simp only: on off bindE_Inr)
  finally show ?thesis .
qed

theorem lighting_prefix_match_witness:
  "mqtt_callback (map Some topic_lighting @ [Some 0]) (bytes ''On'') blank =
     Inr (blank\<lparr>lightingPin := [False, True]\<rparr>) \<and>
   mqtt_callback (map Some topic_lighting @ [Some 0]) (bytes ''Offline'') blank =
     Inr (blank\<lparr>lightingPin := [False, False]\<rparr>) \<and>
   mqtt_callback (map Some topic_lighting @ [Some 0]) (bytes ''on'') blank = Inr blank \<and>
   mqtt_callback (map Some topic_lighting @ [Some 0]) (bytes ''Of'') blank = Inr blank"
  using lighting_prefix_match [OF topic_buffers(2), of "bytes ''On''" blank]
    lighting_prefix_match [OF topic_buffers(2), of "bytes ''Offline''" blank]
    lighting_prefix_match [OF topic_buffers(2), of "bytes ''on''" blank]
    lighting_prefix_match [OF topic_buffers(2), of "bytes ''Of''" blank]
  by (simp add: bytes_def blank_def)

text \<open>
  Claim C8, as amended. For every NUL-terminated text that is, with its line breaks, at
  most 255 bytes long (252 bytes of text without a line break, 253 with one), the message
  \<^verbatim>\<open>DS021t\<close> builds is the text followed by exactly two line breaks when the text holds
  a line break and by exactly three otherwise, and \<^verbatim>\<open>strlen\<close> of it, taken anew in every
  call, is the length of text and line breaks. When the text holds none of the seven
  mapped sequences (normalization leaves it as it is), the block count computed from
  that length is the ceiling of (that length + 2) / 16, which is the formula of section 3
  with the two or three line breaks appended: the ceiling of (length of the normalized
  text + line breaks appended + 2) / 16.
\<close>

theorem DS021t_line_breaks_and_blocks:
  assumes "c_str text = Inr t"
    and "length t + (if LF \<in> set t then 2 else 3) \<le> 255"
  shows "\<exists>message. DS021t_message text = Inr message \<and>
     c_str message = Inr (t @ (if LF \<in> set t then [LF, LF] else [LF, LF, LF])) \<and>
     strlen message = Inr (length t + (if LF \<in> set t then 2 else 3)) \<and>
     (CharsetNormalizer t = t \<longrightarrow>
        DS021t_num_blocks (int (length t + (if LF \<in> set t then 2 else 3))) =
          \<lceil>real (length t + (if LF \<in> set t then 2 else 3) + 2) / 16\<rceil> \<and>
        DS021t_num_blocks (int (length t + (if LF \<in> set t then 2 else 3))) =
          \<lceil>real (length (CharsetNormalizer t) + (if LF \<in> set t then 2 else 3) + 2) / 16\<rceil>)"
proof -
  let ?msg = "t @ line_breaks t"
  let ?m0 = "map Some ?msg @ Some 0 # replicate (255 - length ?msg) None"
  have lb: "line_breaks t = (if LF \<in> set t then [LF, LF] else [LF, LF, LF])"
    by (simp add: line_breaks_def)
  have len: "length ?msg = length t + (if LF \<in> set t then 2 else 3)"
    by (simp add: line_breaks_def)
  have "take 255 ?msg = ?msg"
    using assms(2) len by simp
  then have run: "DS021t_message text = Inr ?m0"
    using DS021t_message_correct [OF assms(1)] by (simp only:)
  have nz: "0 \<notin> set ?msg"
    using c_str_nonzero [OF assms(1)] line_breaks_plain(1) [of t] by simp
  have cs: "c_str ?m0 = Inr ?msg"
    using nz by (rule c_str_terminated)
  have sl: "strlen ?m0 = Inr (length ?msg)"
    using nz by (rule strlen_terminated)
  have nb: "DS021t_num_blocks (int (length ?msg)) = \<lceil>real (length ?msg + 2) / 16\<rceil>"
    by (rule num_blocks_ceiling_nat)
  show ?thesis
  proof (intro exI conjI impI)
    show "DS021t_message text = Inr ?m0" by (fact run)
    show "c_str ?m0 = Inr (t @ (if LF \<in> set t then [LF, LF] else [LF, LF, LF]))"
      using cs by (simp only: lb)
    show "strlen ?m0 = Inr (length t + (if LF \<in> set t then 2 else 3))"
      using sl by (simp only: len)
    show "DS021t_num_blocks (int (length t + (if LF \<in> set t then 2 else 3))) =
       \<lceil>real (length t + (if LF \<in> set t then 2 else 3) + 2) / 16\<rceil>"
      using nb by (simp only: len)
    assume plain: "CharsetNormalizer t = t"
    show "DS021t_num_blocks (int (length t + (if LF \<in> set t then 2 else 3))) =
       \<lceil>real (length (CharsetNormalizer t) + (if LF \<in> set t then 2 else 3) + 2) / 16\<rceil>"
      using nb by (simp only: len plain)
  qed
qed

theorem DS021t_line_breaks_and_blocks_witness:
  "(\<exists>message. DS021t_message (map Some (bytes ''Hello'') @ [Some 0]) = Inr message \<and>
      c_str message = Inr (bytes ''Hello'' @ [LF, LF, LF]) \<and> strlen message = Inr 8) \<and>
   DS021t_num_blocks 8 = \<lceil>real (length (CharsetNormalizer (bytes ''Hello'')) + 3 + 2) / 16\<rceil> \<and>
   (\<exists>message. DS021t_message (map Some [0x41, LF, 0x42] @ [Some 0]) = Inr message \<and>
      c_str message = Inr [0x41, LF, 0x42, LF, LF] \<and> strlen message = Inr 5) \<and>
   DS021t_num_blocks 5 = \<lceil>real (length (CharsetNormalizer [0x41, LF, 0x42]) + 2 + 2) / 16\<rceil> \<and>
   DS021t_num_blocks 8 = 1 \<and> DS021t_num_blocks 5 = 1"
proof -
  have h: "c_str (map Some (bytes ''Hello'') @ [Some 0]) = Inr (bytes ''Hello'')"
    "length (bytes ''Hello'') + (if LF \<in> set (bytes ''Hello'') then 2 else 3) \<le> 255"
    "CharsetNormalizer (bytes ''Hello'') = bytes ''Hello''"
    "LF \<notin> set (bytes ''Hello'')" "length (bytes ''Hello'') = 5"
    by (simp_all add: bytes_def)
  have n: "c_str (map Some [0x41, LF, 0x42] @ [Some 0]) = Inr [0x41, LF, 0x42]"
    "length [0x41, LF, 0x42 :: byte] + (if LF \<in> set [0x41, LF, 0x42 :: byte] then 2 else 3) \<le> 255"
    "CharsetNormalizer [0x41, LF, 0x42] = [0x41, LF, 0x42]"
    by simp_all
  from DS021t_line_breaks_and_blocks [OF h(1,2)] h(3,4,5)
  have "(\<exists>message. DS021t_message (map Some (bytes ''Hello'') @ [Some 0]) = Inr message \<and>
      c_str message = Inr (bytes ''Hello'' @ [LF, LF, LF]) \<and> strlen message = Inr 8) \<and>
    DS021t_num_blocks 8 = \<lceil>real (length (CharsetNormalizer (bytes ''Hello'')) + 3 + 2) / 16\<rceil>"
    by auto
  moreover from DS021t_line_breaks_and_blocks [OF n(1,2)] n(3)
  have "(\<exists>message. DS021t_message (map Some [0x41, LF, 0x42] @ [Some 0]) = Inr message \<and>
      c_str message = Inr [0x41, LF, 0x42, LF, LF] \<and> strlen message = Inr 5) \<and>
    DS021t_num_blocks 5 = \<lceil>real (length (CharsetNormalizer [0x41, LF, 0x42]) + 2 + 2) / 16\<rceil>"
    by auto
  moreover have "DS021t_num_blocks 8 = 1 \<and> DS021t_num_blocks 5 = 1"
    by (simp add: DS021t_num_blocks_def)
  ultimately show ?thesis by blast
qed

text \<open>
  Claim C8 as stated fails in three ways. A text of 253 letters \<^verbatim>\<open>A\<close> holds no line
  break, and the message built from it ends in two line breaks, not three: \<^verbatim>\<open>snprintf\<close>
  cuts the message after 255 bytes. A text of eleven letters and a line break gets two
  line breaks, so its count is 1, where the formula of section 3 with its three line
  breaks gives 2. For u-umlaut and ten letters the count is 2, taken from the 15 bytes as
  they arrived, where the formula of section 3 on the normalized text gives 1.
\<close>

theorem line_breaks_counterexample:
  "LF \<notin> set (replicate 253 (0x41 :: byte)) \<and>
   bindE (DS021t_message (map Some (replicate 253 0x41) @ [Some 0])) c_str =
     Inr (replicate 253 0x41 @ [LF, LF]) \<and>
   bindE (DS021t_message (map Some (bytes ''AAAAAAAAAAA'' @ [LF]) @ [Some 0])) strlen = Inr 14 \<and>
   DS021t_num_blocks 14 = 1 \<and>
   \<lceil>real (length (CharsetNormalizer (bytes ''AAAAAAAAAAA'' @ [LF])) + 3 + 2) / 16\<rceil> = (2 :: int) \<and>
   bindE (DS021t_message (map Some ([0xC3, 0xBC] @ bytes ''AAAAAAAAAA'') @ [Some 0])) strlen = Inr 15 \<and>
   DS021t_num_blocks 15 = 2 \<and>
   \<lceil>real (length (CharsetNormalizer ([0xC3, 0xBC] @ bytes ''AAAAAAAAAA'')) + 3 + 2) / 16\<rceil> = (1 :: int)"
proof -
  let ?t = "replicate 253 (0x41 :: byte)"
  have "c_str (map Some ?t @ [Some 0]) = Inr ?t"
    by (rule c_str_terminated) simp
  then have "DS021t_message (map Some ?t @ [Some 0]) =
     Inr (map Some (take 255 (?t @ line_breaks ?t)) @
          Some 0 # replicate (255 - length (take 255 (?t @ line_breaks ?t))) None)"
    by (rule DS021t_message_correct)
  moreover have tk: "take 255 (?t @ line_breaks ?t) = ?t @ [LF, LF]"
    by (simp add: line_breaks_def)
  ultimately have m: "DS021t_message (map Some ?t @ [Some 0]) =
     Inr (map Some (?t @ [LF, LF]) @ Some 0 # replicate (255 - length (?t @ [LF, LF])) None)"
    by (simp only:)
  have "c_str (map Some (?t @ [LF, LF]) @ Some 0 # replicate (255 - length (?t @ [LF, LF])) None) =
      Inr (?t @ [LF, LF])"
    by (rule c_str_terminated) simp
  then have cut: "bindE (DS021t_message (map Some ?t @ [Some 0])) c_str = Inr (?t @ [LF, LF])"
    by (simp only: m bindE_Inr)
  have plain: "LF \<notin> set ?t" by simp
  let ?u = "bytes ''AAAAAAAAAAA'' @ [LF]"
  have "bindE (DS021t_message (map Some ?u @ [Some 0])) strlen = Inr (length (?u @ line_breaks ?u))"
    by (rule DS021t_message_strlen) (simp_all add: bytes_def line_breaks_def)
  then have two: "bindE (DS021t_message (map Some ?u @ [Some 0])) strlen = Inr 14"
    by (simp add: bytes_def line_breaks_def)
  have two': "\<lceil>real (length (CharsetNormalizer ?u) + 3 + 2) / 16\<rceil> = (2 :: int)"
    by (simp add: bytes_def)
  let ?v = "[0xC3, 0xBC] @ bytes ''AAAAAAAAAA''"
  have "bindE (DS021t_message (map Some ?v @ [Some 0])) strlen = Inr (length (?v @ line_breaks ?v))"
    by (rule DS021t_message_strlen) (simp_all add: bytes_def line_breaks_def)
  then have raw: "bindE (DS021t_message (map Some ?v @ [Some 0])) strlen = Inr 15"
    by (simp add: bytes_def line_breaks_def)
  have raw': "\<lceil>real (length (CharsetNormalizer ?v) + 3 + 2) / 16\<rceil> = (1 :: int)"
    by (simp add: bytes_def charset_table_def)
  have nb: "DS021t_num_blocks 14 = 1" "DS021t_num_blocks 15 = 2"
    by (simp_all add: DS021t_num_blocks_def)
  show ?thesis
    by (intro conjI) (fact plain cut two two' raw raw' nb)+
qed

text \<open>
  Claim C9. \<^verbatim>\<open>process_special_characters\<close> is idempotent on every NUL-terminated array:
  a second run leaves the whole array, cell by cell, as the first run left it.
\<close>

theorem process_special_characters_idempotent:
  assumes "c_str telegram = Inr s"
  shows "\<exists>once. process_special_characters telegram = Inr once \<and>
     process_special_characters once = Inr once"
proof -
  let ?n = "CharsetNormalizer s"
  let ?once = "map Some ?n @ Some 0 # drop (length ?n + 1) telegram"
  have nz: "0 \<notin> set ?n"
    using assms c_str_nonzero CharsetNormalizer_nonzero by blast
  have first: "process_special_characters telegram = Inr ?once"
    using assms by (rule process_special_characters_correct)
  have "c_str ?once = Inr ?n" using nz by simp
  then have "process_special_characters ?once =
      Inr (map Some (CharsetNormalizer ?n) @ Some 0 # drop (length (CharsetNormalizer ?n) + 1) ?once)"
    by (rule process_special_characters_correct)
  then have "process_special_characters ?once = Inr ?once"
    by (simp add: CharsetNormalizer_idem)
  with first show ?thesis by simp
qed

theorem process_special_characters_idempotent_witness:
  "\<exists>once. process_special_characters (map Some [0xC3, 0xC3, 0xA4, 0x41] @ [Some 0, None]) = Inr once \<and>
     process_special_characters once = Inr once"
  using process_special_characters_idempotent
    [of "map Some [0xC3, 0xC3, 0xA4, 0x41] @ [Some 0, None]" "[0xC3, 0xC3, 0xA4, 0x41]"]
  by simp

text \<open>
  Claim C10. A call of \<^verbatim>\<open>mqtt_callback\<close> whose topic is neither
  \<^verbatim>\<open>home/flipdot/message\<close> nor \<^verbatim>\<open>home/flipdot/lighting\<close> returns the device
  unchanged: nothing written to either serial port or to the lighting pin, and
  \<^verbatim>\<open>flipdotMessage_str\<close> as it was.
\<close>

theorem other_topics_ignored:
  assumes "c_str topic = Inr t" "t \<noteq> topic_message" "t \<noteq> topic_lighting"
  shows "mqtt_callback topic payload s = Inr s"
proof -
  have c1: "strcmp topic topic_message = Inr False"
    using strcmp_c_str [OF assms(1) topics_plain(1)] assms(2) by simp
  have c2: "strcmp topic topic_lighting = Inr False"
    using strcmp_c_str [OF assms(1) topics_plain(2)] assms(3) by simp
  have "mqtt_callback topic payload s =
     bindE (bindE (memcpy (replicate 256 None) payload (min (length payload) (256 - 1)))
       (\<lambda>buffer. poke buffer (min (length payload) (256 - 1)) 0)) (\<lambda>buffer. Inr s)"
    unfolding mqtt_callback_def
    by (simp only: c1 c2 bindE_Inr if_False) (simp add: bindE_def split: sum.splits)
  then show ?thesis
    by (simp only: local_buffer bindE_Inr)
qed

theorem other_topics_ignored_witness:
  "mqtt_callback (map Some (bytes ''home/flipdot/other'') @ [Some 0]) (bytes ''On'') blank = Inr blank"
proof -
  have "c_str (map Some (bytes ''home/flipdot/other'') @ [Some 0]) = Inr (bytes ''home/flipdot/other'')"
    by (simp add: bytes_def)
  moreover have "bytes ''home/flipdot/other'' \<noteq> topic_message"
    "bytes ''home/flipdot/other'' \<noteq> topic_lighting"
    by (simp_all add: topic_message_def topic_lighting_def bytes_def)
  ultimately show ?thesis
    by (rule other_topics_ignored)
qed

end
